theory Spec2Isabelle
  imports Complex_Main "HOL-Library.AList"
begin

section \<open>JavaScript strings and numbers\<close>

text \<open>
  A JavaScript string is a sequence of UTF-16 code units; \<open>length\<close>, regular expressions
  and \<open>JSON.parse\<close> all work on code units. A code unit is modelled by its value.
  \<open>str\<close> reads an ASCII literal as such a sequence.
\<close>

type_synonym codeunit = nat
type_synonym jsstring = "codeunit list"

definition str :: "string \<Rightarrow> jsstring" where
  "str s = map of_char s"

text \<open>
  A JavaScript Number is modelled by the exact rational it denotes, or \<open>NaN\<close>.
  IEEE rounding and overflow of doubles are not modelled.
\<close>

datatype jsnum = NaN | Fin rat

fun num_add :: "jsnum \<Rightarrow> jsnum \<Rightarrow> jsnum" where
  "num_add (Fin a) (Fin b) = Fin (a + b)"
| "num_add _ _ = NaN"

datatype js_error = TypeError | SyntaxError

subsection \<open>Character classes\<close>

definition isDigit :: "codeunit \<Rightarrow> bool" where
  "isDigit c \<longleftrightarrow> 48 \<le> c \<and> c \<le> 57"

definition isWordChar :: "codeunit \<Rightarrow> bool" where
  "isWordChar c \<longleftrightarrow> isDigit c \<or> (65 \<le> c \<and> c \<le> 90) \<or> c = 95 \<or> (97 \<le> c \<and> c \<le> 122)"

text \<open>
  ECMAScript WhiteSpace and LineTerminator: what \<open>\s\<close>, \<open>trim\<close> and the leading
  white space of \<open>parseInt\<close> recognise.
\<close>

definition isWhiteSpace :: "codeunit \<Rightarrow> bool" where
  "isWhiteSpace c \<longleftrightarrow>
     c = 9 \<or> c = 10 \<or> c = 11 \<or> c = 12 \<or> c = 13 \<or> c = 32 \<or> c = 160 \<or> c = 5760
     \<or> (8192 \<le> c \<and> c \<le> 8202) \<or> c = 8232 \<or> c = 8233 \<or> c = 8239 \<or> c = 8287
     \<or> c = 12288 \<or> c = 65279"

text \<open>
  Canonicalize of the \<open>i\<close> flag (no \<open>u\<close> flag): upper case, except that a code unit
  from 128 on never becomes an ASCII one. Every literal character of the patterns below
  is ASCII, so leaving the code units from 128 on as they are decides every comparison
  as the engine does.
\<close>

definition canonicalize :: "bool \<Rightarrow> codeunit \<Rightarrow> codeunit" where
  "canonicalize ignoreCase c = (if ignoreCase \<and> 97 \<le> c \<and> c \<le> 122 then c - 32 else c)"

datatype charclass = Digit | WhiteSpace | NonWhiteSpace | WordChar
  | Chr codeunit | Union charclass charclass

fun classMatches :: "bool \<Rightarrow> charclass \<Rightarrow> codeunit \<Rightarrow> bool" where
  "classMatches ic Digit c = isDigit c"
| "classMatches ic WhiteSpace c = isWhiteSpace c"
| "classMatches ic NonWhiteSpace c = (\<not> isWhiteSpace c)"
| "classMatches ic WordChar c = isWordChar c"
| "classMatches ic (Chr a) c = (canonicalize ic a = canonicalize ic c)"
| "classMatches ic (Union A B) c = (classMatches ic A c \<or> classMatches ic B c)"

section \<open>Regular expressions\<close>

text \<open>
  The constructs the patterns of \<open>page.tsx\<close> use: one character of a class, the greedy
  \<open>*\<close> and \<open>+\<close> and the lazy \<open>*?\<close> of a class, sequence, alternation, the greedy
  \<open>?\<close> and numbered capture groups.
\<close>

datatype regex = Atom charclass | Star charclass | Plus charclass | LazyStar charclass
  | Seq regex regex | Alt regex regex | Opt regex | Group nat regex | Empty

type_synonym captures = "nat \<Rightarrow> jsstring option"

text \<open>
  The matcher is the backtracking matcher of the ECMAScript specification, in
  continuation-passing style: a matcher takes the continuation \<open>k\<close> for the rest of the
  pattern, the rest of the input and the captures so far, and the first alternative
  whose continuation succeeds wins.
\<close>

type_synonym 'r cont = "jsstring \<Rightarrow> captures \<Rightarrow> 'r option"

fun greedyStar :: "(codeunit \<Rightarrow> bool) \<Rightarrow> 'r cont \<Rightarrow> 'r cont" where
  "greedyStar p k [] c = k [] c"
| "greedyStar p k (x # xs) c =
     (if p x then (case greedyStar p k xs c of Some r \<Rightarrow> Some r | None \<Rightarrow> k (x # xs) c)
      else k (x # xs) c)"

fun lazyStar :: "(codeunit \<Rightarrow> bool) \<Rightarrow> 'r cont \<Rightarrow> 'r cont" where
  "lazyStar p k [] c = k [] c"
| "lazyStar p k (x # xs) c =
     (case k (x # xs) c of Some r \<Rightarrow> Some r
      | None \<Rightarrow> if p x then lazyStar p k xs c else None)"

primrec matcher :: "regex \<Rightarrow> bool \<Rightarrow> 'r cont \<Rightarrow> 'r cont" where
  "matcher (Atom A) ic k = (\<lambda>s c. case s of [] \<Rightarrow> None
      | x # xs \<Rightarrow> if classMatches ic A x then k xs c else None)"
| "matcher (Star A) ic k = greedyStar (classMatches ic A) k"
| "matcher (Plus A) ic k = (\<lambda>s c. case s of [] \<Rightarrow> None
      | x # xs \<Rightarrow> if classMatches ic A x then greedyStar (classMatches ic A) k xs c else None)"
| "matcher (LazyStar A) ic k = lazyStar (classMatches ic A) k"
| "matcher (Seq r1 r2) ic k = matcher r1 ic (matcher r2 ic k)"
| "matcher (Alt r1 r2) ic k = (\<lambda>s c. case matcher r1 ic k s c of Some r \<Rightarrow> Some r
      | None \<Rightarrow> matcher r2 ic k s c)"
| "matcher (Opt r) ic k = (\<lambda>s c. case matcher r ic k s c of Some r \<Rightarrow> Some r
      | None \<Rightarrow> k s c)"
| "matcher (Group n r) ic k = (\<lambda>s c.
      matcher r ic (\<lambda>s' c'. k s' (c'(n \<mapsto> take (length s - length s') s))) s c)"
| "matcher Empty ic k = k"

text \<open>A match: where it starts and ends in the text, and the captures (\<open>match[n]\<close>).\<close>

record regmatch =
  index :: nat
  lastIndex :: nat
  groups :: captures

definition matchAt :: "bool \<Rightarrow> regex \<Rightarrow> nat \<Rightarrow> jsstring \<Rightarrow> regmatch option" where
  "matchAt ic r i s =
     matcher r ic
       (\<lambda>s' c. Some \<lparr>index = i, lastIndex = i + (length s - length s'),
                     groups = c(0 \<mapsto> take (length s - length s') s)\<rparr>)
       s (\<lambda>_. None)"

text \<open>The search for the leftmost match, from position \<open>i\<close> on, \<open>s\<close> being the text from there.\<close>

fun scan :: "bool \<Rightarrow> regex \<Rightarrow> nat \<Rightarrow> jsstring \<Rightarrow> regmatch option" where
  "scan ic r i [] = matchAt ic r i []"
| "scan ic r i (x # xs) =
     (case matchAt ic r i (x # xs) of Some m \<Rightarrow> Some m | None \<Rightarrow> scan ic r (Suc i) xs)"

text \<open>
  \<open>RegExp.prototype.exec\<close> from \<open>lastIndex\<close> (0 for a pattern without the \<open>g\<close> flag, as
  \<open>String.prototype.match\<close> uses it).
\<close>

definition exec :: "bool \<Rightarrow> regex \<Rightarrow> jsstring \<Rightarrow> nat \<Rightarrow> regmatch option" where
  "exec ic r text li = (if li > length text then None else scan ic r li (drop li text))"

definition seq :: "regex list \<Rightarrow> regex" where
  "seq rs = foldr Seq rs Empty"

definition lit :: "string \<Rightarrow> regex" where
  "lit s = seq (map (\<lambda>ch. Atom (Chr (of_char ch))) s)"

section \<open>Library functions of the language\<close>

text \<open>\<open>String.prototype.trim\<close>.\<close>

definition trim :: "jsstring \<Rightarrow> jsstring" where
  "trim s = rev (dropWhile isWhiteSpace (rev (dropWhile isWhiteSpace s)))"

text \<open>
  \<open>ToString\<close> of a capture: a group that did not take part in the match is
  \<open>undefined\<close>.
\<close>

definition ToString :: "jsstring option \<Rightarrow> jsstring" where
  "ToString v = (case v of None \<Rightarrow> str ''undefined'' | Some s \<Rightarrow> s)"

definition digitValue :: "nat \<Rightarrow> codeunit \<Rightarrow> nat option" where
  "digitValue radix c =
     (let v = (if 48 \<le> c \<and> c \<le> 57 then c - 48
               else if 97 \<le> c \<and> c \<le> 122 then c - 87
               else if 65 \<le> c \<and> c \<le> 90 then c - 55
               else radix)
      in if v < radix then Some v else None)"

definition radixValue :: "nat \<Rightarrow> jsstring \<Rightarrow> nat" where
  "radixValue radix ds = foldl (\<lambda>acc c. acc * radix + the (digitValue radix c)) 0 ds"

text \<open>
  \<open>Number.parseInt\<close> with no radix argument: leading white space, a sign, a \<open>0x\<close>
  prefix for radix 16, then the longest prefix of digits; \<open>NaN\<close> when there is none.
\<close>

definition parseInt :: "jsstring \<Rightarrow> jsnum" where
  "parseInt inputString =
     (let s = dropWhile isWhiteSpace inputString;
          negative = (case s of [] \<Rightarrow> False | c # _ \<Rightarrow> c = 45);
          s1 = (case s of [] \<Rightarrow> s | c # cs \<Rightarrow> if c = 43 \<or> c = 45 then cs else s);
          hex = (case s1 of c # d # _ \<Rightarrow> c = 48 \<and> (d = 120 \<or> d = 88) | _ \<Rightarrow> False);
          radix = (if hex then 16 else 10);
          s2 = (if hex then drop 2 s1 else s1);
          z = takeWhile (\<lambda>c. digitValue radix c \<noteq> None) s2
      in if z = [] then NaN
         else if negative then Fin (- of_nat (radixValue radix z))
         else Fin (of_nat (radixValue radix z)))"

section \<open>The data model\<close>

datatype confidence_level = High | Medium | Low

record FoodItem =
  name :: jsstring
  weight :: jsnum
  carbs :: jsnum
  confidence :: "confidence_level option"

record Breakdown =
  fiber :: jsnum
  sugar :: jsnum
  starch :: jsnum

record CarbData =
  totalCarbs :: jsnum
  breakdown :: Breakdown
  foodItems :: "FoodItem list"

section \<open>The heuristic fallback: \<open>generateEstimatedCarbData\<close>\<close>

text \<open>\<open>(\d+)\s*g(rams)?\s*(of)?\s*\<close> followed by the word looked for.\<close>

definition gramsOf :: "regex \<Rightarrow> regex" where
  "gramsOf word =
     seq [Group 1 (Plus Digit), Star WhiteSpace, lit ''g'', Opt (Group 2 (lit ''rams'')),
          Star WhiteSpace, Opt (Group 3 (lit ''of'')), Star WhiteSpace, word]"

definition carbRegex :: regex where
  "carbRegex = gramsOf (Group 4 (Alt (lit ''carb'') (lit ''carbohydrate'')))"

definition fiberRegex :: regex where
  "fiberRegex = gramsOf (lit ''fiber'')"

definition sugarRegex :: regex where
  "sugarRegex = gramsOf (lit ''sugar'')"

definition starchRegex :: regex where
  "starchRegex = gramsOf (lit ''starch'')"

text \<open>
  \<open>(\w+[\s\w]*?):\s*(\d+)\s*g(rams)?,\s*(\d+)\s*g(rams)?\s*(of)?\s*(carbs|carbohydrates)\<close>
\<close>

definition foodItemRegex :: regex where
  "foodItemRegex =
     seq [Group 1 (Seq (Plus WordChar) (LazyStar (Union WhiteSpace WordChar))), lit '':'',
          Star WhiteSpace, Group 2 (Plus Digit), Star WhiteSpace, lit ''g'',
          Opt (Group 3 (lit ''rams'')), lit '','', Star WhiteSpace, Group 4 (Plus Digit),
          Star WhiteSpace, lit ''g'', Opt (Group 5 (lit ''rams'')), Star WhiteSpace,
          Opt (Group 6 (lit ''of'')), Star WhiteSpace,
          Group 7 (Alt (lit ''carbs'') (lit ''carbohydrates''))]"

text \<open>
  The item pushed for one match. \<open>match[1].trim()\<close> is evaluated first and throws a
  TypeError when group 1 is \<open>undefined\<close>.
\<close>

definition foodItemOf :: "regmatch \<Rightarrow> js_error + FoodItem" where
  "foodItemOf m =
     (case groups m 1 of
        None \<Rightarrow> Inl TypeError
      | Some g \<Rightarrow> Inr \<lparr>name = trim g, weight = parseInt (ToString (groups m 2)),
                       carbs = parseInt (ToString (groups m 4)), confidence = Some Low\<rparr>)"

text \<open>
  The loop \<open>while ((match = foodItemRegex.exec(responseText)) !== null)\<close>: the pattern has
  the \<open>g\<close> flag, so each \<open>exec\<close> starts at the \<open>lastIndex\<close> the one before left. Nothing
  in the loop itself makes it stop, so it is a partial function: \<open>None\<close> is a loop that
  never ends.
\<close>

partial_function (option) execLoop ::
  "jsstring \<Rightarrow> nat \<Rightarrow> FoodItem list \<Rightarrow> (js_error + FoodItem list) option" where
  "execLoop responseText li items =
     (case exec True foodItemRegex responseText li of
        None \<Rightarrow> Some (Inr items)
      | Some m \<Rightarrow>
          (case foodItemOf m of
             Inl e \<Rightarrow> Some (Inl e)
           | Inr item \<Rightarrow> execLoop responseText (lastIndex m) (items @ [item])))"

definition defaultItem :: FoodItem where
  "defaultItem = \<lparr>name = str ''Unknown food item'', weight = Fin 100, carbs = Fin 30,
                  confidence = Some Low\<rparr>"

text \<open>
  Lines 205 to 239: the default record, then the numbers the four patterns recover; the
  items are those of the default record still.
\<close>

definition fallbackTotals :: "jsstring \<Rightarrow> CarbData" where
  "fallbackTotals responseText =
     (let fallbackData =
            \<lparr>totalCarbs = Fin 30,
             breakdown = \<lparr>fiber = Fin 5, sugar = Fin 10, starch = Fin 15\<rparr>,
             foodItems = [defaultItem]\<rparr>;
          carbMatch = exec True carbRegex responseText 0;
          fiberMatch = exec True fiberRegex responseText 0;
          sugarMatch = exec True sugarRegex responseText 0;
          starchMatch = exec True starchRegex responseText 0;
          d1 = (case carbMatch of None \<Rightarrow> fallbackData
                | Some m \<Rightarrow> fallbackData\<lparr>totalCarbs := parseInt (ToString (groups m 1))\<rparr>);
          d2 = (case fiberMatch of None \<Rightarrow> d1
                | Some m \<Rightarrow>
                    d1\<lparr>breakdown := (breakdown d1)\<lparr>fiber := parseInt (ToString (groups m 1))\<rparr>\<rparr>);
          d3 = (case sugarMatch of None \<Rightarrow> d2
                | Some m \<Rightarrow>
                    d2\<lparr>breakdown := (breakdown d2)\<lparr>sugar := parseInt (ToString (groups m 1))\<rparr>\<rparr>);
          d4 = (case starchMatch of None \<Rightarrow> d3
                | Some m \<Rightarrow>
                    d3\<lparr>breakdown := (breakdown d3)\<lparr>starch := parseInt (ToString (groups m 1))\<rparr>\<rparr>)
      in if carbMatch = None \<and> (fiberMatch \<noteq> None \<or> sugarMatch \<noteq> None \<or> starchMatch \<noteq> None)
         then d4\<lparr>totalCarbs :=
                   num_add (num_add (fiber (breakdown d4)) (sugar (breakdown d4)))
                           (starch (breakdown d4))\<rparr>
         else d4)"

text \<open>
  The whole function: the numbers, then the loop over the items (lines 242 to 259). It
  returns a record, throws, or does not return.
\<close>

definition generateEstimatedCarbData :: "jsstring \<Rightarrow> (js_error + CarbData) option" where
  "generateEstimatedCarbData responseText =
     (let fallbackData = fallbackTotals responseText
      in case execLoop responseText 0 [] of
           None \<Rightarrow> None
         | Some (Inl e) \<Rightarrow> Some (Inl e)
         | Some (Inr items) \<Rightarrow>
             Some (Inr (if length items > 0 then fallbackData\<lparr>foodItems := items\<rparr>
                        else fallbackData)))"

section \<open>JSON values and \<open>JSON.parse\<close>\<close>

text \<open>
  A JavaScript value as \<open>JSON.parse\<close> builds it. An object is the list of its own
  properties in creation order; an array has its elements and, once the program assigns
  to one, named properties besides.
\<close>

datatype jsval = JNull | JBool bool | JNum jsnum | JStr jsstring
  | JArr "jsval list" "(jsstring \<times> jsval) list"
  | JObj "(jsstring \<times> jsval) list"

definition isJsonWs :: "codeunit \<Rightarrow> bool" where
  "isJsonWs c \<longleftrightarrow> c = 9 \<or> c = 10 \<or> c = 13 \<or> c = 32"

definition skipWs :: "jsstring \<Rightarrow> jsstring" where
  "skipWs s = dropWhile isJsonWs s"

text \<open>The characters of a JSON string after the opening quote, up to the closing one.\<close>

fun parseChars :: "jsstring \<Rightarrow> jsstring \<Rightarrow> (jsstring \<times> jsstring) option" where
  "parseChars [] acc = None"
| "parseChars (c # cs) acc =
     (if c = 34 then Some (rev acc, cs)
      else if c = 92 then
        (case cs of
           [] \<Rightarrow> None
         | e # cs1 \<Rightarrow>
             if e = 34 \<or> e = 92 \<or> e = 47 then parseChars cs1 (e # acc)
             else if e = 98 then parseChars cs1 (8 # acc)
             else if e = 102 then parseChars cs1 (12 # acc)
             else if e = 110 then parseChars cs1 (10 # acc)
             else if e = 114 then parseChars cs1 (13 # acc)
             else if e = 116 then parseChars cs1 (9 # acc)
             else if e = 117 then
               (case cs1 of
                  h1 # h2 # h3 # h4 # cs2 \<Rightarrow>
                    (case (digitValue 16 h1, digitValue 16 h2, digitValue 16 h3,
                           digitValue 16 h4) of
                       (Some a, Some b, Some c, Some d) \<Rightarrow>
                         parseChars cs2 ((((a * 16 + b) * 16 + c) * 16 + d) # acc)
                     | _ \<Rightarrow> None)
                | _ \<Rightarrow> None)
             else None)
      else if c < 32 then None
      else parseChars cs (c # acc))"

text \<open>
  A JSON number: \<open>-? (0 | [1-9][0-9]*) (. [0-9]+)? ([eE] [+-]? [0-9]+)?\<close>, read as the
  rational it denotes. Each part gives what it read and the rest of the input.
\<close>

definition digitRun :: "jsstring \<Rightarrow> jsstring \<times> jsstring" where
  "digitRun s = (takeWhile isDigit s, dropWhile isDigit s)"

definition minusSign :: "jsstring \<Rightarrow> bool \<times> jsstring" where
  "minusSign s = (case s of [] \<Rightarrow> (False, s) | c # cs \<Rightarrow> if c = 45 then (True, cs) else (False, s))"

definition fraction :: "jsstring \<Rightarrow> (jsstring \<times> jsstring) option" where
  "fraction s =
     (case s of
        [] \<Rightarrow> Some ([], s)
      | c # cs \<Rightarrow>
          if c = 46
          then (case digitRun cs of (ds, r) \<Rightarrow> if ds = [] then None else Some (ds, r))
          else Some ([], s))"

text \<open>The exponent: whether it is negative, and its digits (none when there is no exponent).\<close>

definition exponent :: "jsstring \<Rightarrow> ((bool \<times> jsstring) \<times> jsstring) option" where
  "exponent s =
     (case s of
        [] \<Rightarrow> Some ((False, []), s)
      | c # cs \<Rightarrow>
          if c = 101 \<or> c = 69
          then (let negative = (case cs of [] \<Rightarrow> False | d # _ \<Rightarrow> d = 45);
                    cs1 = (case cs of [] \<Rightarrow> cs | d # ds \<Rightarrow> if d = 43 \<or> d = 45 then ds else cs)
                in case digitRun cs1 of
                     (ds, r) \<Rightarrow> if ds = [] then None else Some ((negative, ds), r))
          else Some ((False, []), s))"

definition numberValue :: "bool \<Rightarrow> jsstring \<Rightarrow> jsstring \<Rightarrow> bool \<times> jsstring \<Rightarrow> rat" where
  "numberValue negative intDigits fracDigits e =
     (let mantissa = of_nat (radixValue 10 (intDigits @ fracDigits)) / 10 ^ length fracDigits;
          scaled = (if fst e then mantissa / 10 ^ radixValue 10 (snd e)
                    else mantissa * 10 ^ radixValue 10 (snd e))
      in if negative then - scaled else scaled)"

definition parseNumber :: "jsstring \<Rightarrow> (jsval \<times> jsstring) option" where
  "parseNumber s =
     (case minusSign s of
        (negative, s1) \<Rightarrow>
          (case digitRun s1 of
             (intDigits, s2) \<Rightarrow>
               if intDigits = [] \<or> (length intDigits > 1 \<and> hd intDigits = 48) then None
               else
                 (case fraction s2 of
                    None \<Rightarrow> None
                  | Some (fracDigits, s3) \<Rightarrow>
                      (case exponent s3 of
                         None \<Rightarrow> None
                       | Some (e, s4) \<Rightarrow>
                           Some (JNum (Fin (numberValue negative intDigits fracDigits e)),
                                 s4)))))"

text \<open>
  The recursive descent over values, array elements and object members. The first
  argument bounds the number of nested calls; every call but the first follows at least
  one consumed character, and \<open>JSON_parse\<close> starts with twice the length of the text,
  a bound that is never reached (lemma \<open>JSON_parse_fuel\<close>).
  A property written twice keeps its first place and its last value, as
  \<open>CreateDataProperty\<close> leaves it.
\<close>

fun parseValue :: "nat \<Rightarrow> jsstring \<Rightarrow> (jsval \<times> jsstring) option"
  and parseElements :: "nat \<Rightarrow> jsstring \<Rightarrow> jsval list \<Rightarrow> (jsval \<times> jsstring) option"
  and parseMembers ::
    "nat \<Rightarrow> jsstring \<Rightarrow> (jsstring \<times> jsval) list \<Rightarrow> (jsval \<times> jsstring) option"
where
  "parseValue 0 s = None"
| "parseValue (Suc n) s =
     (case skipWs s of
        [] \<Rightarrow> None
      | c # cs \<Rightarrow>
          if c = 123 then
            (case skipWs cs of
               [] \<Rightarrow> None
             | d # r \<Rightarrow> if d = 125 then Some (JObj [], r) else parseMembers n (d # r) [])
          else if c = 91 then
            (case skipWs cs of
               [] \<Rightarrow> None
             | d # r \<Rightarrow> if d = 93 then Some (JArr [] [], r) else parseElements n (d # r) [])
          else if c = 34 then
            (case parseChars cs [] of None \<Rightarrow> None | Some (t, r) \<Rightarrow> Some (JStr t, r))
          else if take 4 (c # cs) = str ''true'' then Some (JBool True, drop 4 (c # cs))
          else if take 5 (c # cs) = str ''false'' then Some (JBool False, drop 5 (c # cs))
          else if take 4 (c # cs) = str ''null'' then Some (JNull, drop 4 (c # cs))
          else parseNumber (c # cs))"
| "parseElements 0 s acc = None"
| "parseElements (Suc n) s acc =
     (case parseValue n s of
        None \<Rightarrow> None
      | Some (v, r) \<Rightarrow>
          (case skipWs r of
             [] \<Rightarrow> None
           | c # cs \<Rightarrow>
               if c = 44 then parseElements n cs (acc @ [v])
               else if c = 93 then Some (JArr (acc @ [v]) [], cs)
               else None))"
| "parseMembers 0 s acc = None"
| "parseMembers (Suc n) s acc =
     (case skipWs s of
        [] \<Rightarrow> None
      | c # cs \<Rightarrow>
          if c \<noteq> 34 then None
          else
            (case parseChars cs [] of
               None \<Rightarrow> None
             | Some (key, r) \<Rightarrow>
                 (case skipWs r of
                    [] \<Rightarrow> None
                  | d # r1 \<Rightarrow>
                      if d \<noteq> 58 then None
                      else
                        (case parseValue n r1 of
                           None \<Rightarrow> None
                         | Some (v, r2) \<Rightarrow>
                             (case skipWs r2 of
                                [] \<Rightarrow> None
                              | e # r3 \<Rightarrow>
                                  if e = 44 then parseMembers n r3 (AList.update key v acc)
                                  else if e = 125
                                  then Some (JObj (AList.update key v acc), r3)
                                  else None)))))"

text \<open>\<open>JSON.parse\<close>: one value, white space around it and nothing else; else a SyntaxError.\<close>

definition JSON_parse :: "jsstring \<Rightarrow> js_error + jsval" where
  "JSON_parse text =
     (case parseValue (2 * length text + 2) text of
        None \<Rightarrow> Inl SyntaxError
      | Some (v, r) \<Rightarrow> if skipWs r = [] then Inr v else Inl SyntaxError)"

section \<open>The application state and \<open>analyzeImage\<close>\<close>

datatype View = Camera | Preview | Settings | Details

text \<open>
  The state of the component. \<open>savedApiKey\<close> is the entry of local storage and
  \<open>fileChooserOpen\<close> tells whether the file chooser of the browser is open. Three
  fields record effects: \<open>requests\<close> holds, for every request sent to the inference
  service, the credential it was sent with; \<open>fileDialogs\<close> counts the openings of the
  file chooser and \<open>imagesCompressed\<close> the calls of \<open>compressImage\<close>.
\<close>

record AppState =
  view :: View
  apiKey :: jsstring
  showApiKeyModal :: bool
  capturedImage :: "jsstring option"
  isLoading :: bool
  isUploading :: bool
  error :: "jsstring option"
  carbData :: "jsval option"
  rawResponse :: "jsstring option"
  savedApiKey :: "jsstring option"
  fileChooserOpen :: bool
  requests :: "jsstring list"
  fileDialogs :: nat
  imagesCompressed :: nat

fun truthy :: "jsval \<Rightarrow> bool" where
  "truthy JNull = False"
| "truthy (JBool b) = b"
| "truthy (JNum NaN) = False"
| "truthy (JNum (Fin q)) = (q \<noteq> 0)"
| "truthy (JStr s) = (s \<noteq> [])"
| "truthy (JArr es ps) = True"
| "truthy (JObj ps) = True"

text \<open>
  \<open>if (!carbData.foodItems) { carbData.foodItems = [] }\<close> on a parsed value. Reading a
  property of \<open>null\<close> throws; a primitive has no such property, and assigning one to it
  throws in strict code, which the code of a module is.
\<close>

definition withFoodItems :: "(jsstring \<times> jsval) list \<Rightarrow> (jsstring \<times> jsval) list" where
  "withFoodItems ps =
     (case map_of ps (str ''foodItems'') of
        None \<Rightarrow> AList.update (str ''foodItems'') (JArr [] []) ps
      | Some x \<Rightarrow> if truthy x then ps else AList.update (str ''foodItems'') (JArr [] []) ps)"

fun ensureFoodItems :: "jsval \<Rightarrow> js_error + jsval" where
  "ensureFoodItems (JObj ps) = Inr (JObj (withFoodItems ps))"
| "ensureFoodItems (JArr es ps) = Inr (JArr es (withFoodItems ps))"
| "ensureFoodItems _ = Inl TypeError"

text \<open>The body of both \<open>try\<close> blocks: parse, then make sure \<open>foodItems\<close> is there.\<close>

definition parseCarbData :: "jsstring \<Rightarrow> js_error + jsval" where
  "parseCarbData text =
     (case JSON_parse text of Inl e \<Rightarrow> Inl e | Inr v \<Rightarrow> ensureFoodItems v)"

text \<open>The pattern \<open>\{[\s\S]*\}\<close>, with no flag.\<close>

definition jsonRegex :: regex where
  "jsonRegex = seq [Atom (Chr 123), Star (Union WhiteSpace NonWhiteSpace), Atom (Chr 125)]"

definition degradedMessage :: jsstring where
  "degradedMessage = str ''Could not get precise values. Showing estimates.''"

text \<open>The record of the fallback as the JavaScript object it is.\<close>

definition confidenceText :: "confidence_level \<Rightarrow> jsstring" where
  "confidenceText c = (case c of High \<Rightarrow> str ''high'' | Medium \<Rightarrow> str ''medium''
                       | Low \<Rightarrow> str ''low'')"

definition js_of_FoodItem :: "FoodItem \<Rightarrow> jsval" where
  "js_of_FoodItem item =
     JObj ([(str ''name'', JStr (name item)), (str ''weight'', JNum (weight item)),
            (str ''carbs'', JNum (carbs item))]
           @ (case confidence item of None \<Rightarrow> []
              | Some c \<Rightarrow> [(str ''confidence'', JStr (confidenceText c))]))"

definition js_of_CarbData :: "CarbData \<Rightarrow> jsval" where
  "js_of_CarbData d =
     JObj [(str ''totalCarbs'', JNum (totalCarbs d)),
           (str ''breakdown'',
            JObj [(str ''fiber'', JNum (fiber (breakdown d))),
                  (str ''sugar'', JNum (sugar (breakdown d))),
                  (str ''starch'', JNum (starch (breakdown d)))]),
           (str ''foodItems'', JArr (map js_of_FoodItem (foodItems d)) [])]"

text \<open>
  Lines 358 to 360 and 364 to 366: the estimate, stored with the warning. An exception
  of \<open>generateEstimatedCarbData\<close> would leave the inner handlers.
\<close>

definition useEstimate :: "jsstring \<Rightarrow> AppState \<Rightarrow> (js_error + AppState) option" where
  "useEstimate content st =
     (case generateEstimatedCarbData content of
        None \<Rightarrow> None
      | Some (Inl e) \<Rightarrow> Some (Inl e)
      | Some (Inr estimatedData) \<Rightarrow>
          Some (Inr (st\<lparr>carbData := Some (js_of_CarbData estimatedData),
                         error := Some degradedMessage\<rparr>)))"

text \<open>Lines 330 to 368: from the content of the reply to the stored record.\<close>

definition normalizeResponse :: "jsstring \<Rightarrow> AppState \<Rightarrow> (js_error + AppState) option" where
  "normalizeResponse content st =
     (case parseCarbData content of
        Inr parsed \<Rightarrow> Some (Inr (st\<lparr>carbData := Some parsed\<rparr>))
      | Inl parseError \<Rightarrow>
          (case exec False jsonRegex content 0 of
             Some jsonMatch \<Rightarrow>
               (case parseCarbData (ToString (groups jsonMatch 0)) of
                  Inr parsed \<Rightarrow> Some (Inr (st\<lparr>carbData := Some parsed\<rparr>))
                | Inl nestedParseError \<Rightarrow> useEstimate content st)
           | None \<Rightarrow> useEstimate content st))"

text \<open>
  What the service did with the request: \<open>Failed\<close> carries the message of the error the
  outer handler catches (rejected request, status that is not ok, body of another
  shape), \<open>Content\<close> the text of the first choice.
\<close>

datatype reply = Failed jsstring | Content jsstring

text \<open>The text of \<open>err.message\<close>, which the engine chooses.\<close>

definition errorMessage :: "js_error \<Rightarrow> jsstring" where
  "errorMessage e = (case e of TypeError \<Rightarrow> str ''TypeError'' | SyntaxError \<Rightarrow> str ''SyntaxError'')"

text \<open>
  \<open>analyzeImage\<close>, from the call to the state when its promise settles. \<open>None\<close>: it never
  settles.
\<close>

definition analyzeImage :: "jsstring \<Rightarrow> reply \<Rightarrow> AppState \<Rightarrow> AppState option" where
  "analyzeImage imageSrc rep st =
     (let st1 = st\<lparr>isLoading := True, error := None, rawResponse := None,
                    requests := requests st @ [apiKey st]\<rparr>
      in case rep of
           Failed msg \<Rightarrow> Some (st1\<lparr>error := Some msg, isLoading := False\<rparr>)
         | Content content \<Rightarrow>
             (case normalizeResponse content (st1\<lparr>rawResponse := Some content\<rparr>) of
                None \<Rightarrow> None
              | Some (Inl e) \<Rightarrow>
                  Some (st1\<lparr>rawResponse := Some content, error := Some (errorMessage e),
                            isLoading := False\<rparr>)
              | Some (Inr st2) \<Rightarrow> Some (st2\<lparr>isLoading := False\<rparr>)))"

section \<open>The handlers of the interface\<close>



text \<open>
  The file the user chose: whether its type starts with \<open>image/\<close>, its size, and what
  \<open>compressImage\<close> resolves to (\<open>None\<close> when it rejects).
\<close>

record ChosenFile =
  isImage :: bool
  fileSize :: nat
  compressed :: "jsstring option"












text \<open>The state after mounting, \<open>saved\<close> being the entry of local storage.\<close>

definition initialState :: "jsstring option \<Rightarrow> AppState" where
  "initialState saved =
     \<lparr>view = Camera,
      apiKey = (case saved of None \<Rightarrow> [] | Some k \<Rightarrow> k),
      showApiKeyModal = False, capturedImage = None, isLoading = False,
      isUploading = False, error = None, carbData = None, rawResponse = None,
      savedApiKey = saved, fileChooserOpen = False, requests = [], fileDialogs = 0,
      imagesCompressed = 0\<rparr>"

section \<open>Image normalization: the dimensions of \<open>compressImage\<close>\<close>




section \<open>Notions for the statements\<close>

text \<open>
  Every way a pattern can match at the start of \<open>s\<close>: the rest of the input and the
  captures after it. The matcher only ever calls its continuation on one of these.
\<close>

fun runs :: "regex \<Rightarrow> bool \<Rightarrow> jsstring \<Rightarrow> captures \<Rightarrow> (jsstring \<times> captures) set" where
  "runs (Atom A) ic s c = {(xs, c) | x xs. s = x # xs \<and> classMatches ic A x}"
| "runs (Star A) ic s c = {(drop n s, c) | n. n \<le> length s \<and> (\<forall>x \<in> set (take n s). classMatches ic A x)}"
| "runs (Plus A) ic s c = {(drop n s, c) | n. 0 < n \<and> n \<le> length s \<and> (\<forall>x \<in> set (take n s). classMatches ic A x)}"
| "runs (LazyStar A) ic s c = {(drop n s, c) | n. n \<le> length s \<and> (\<forall>x \<in> set (take n s). classMatches ic A x)}"
| "runs (Seq r1 r2) ic s c = (\<Union>(s1, c1) \<in> runs r1 ic s c. runs r2 ic s1 c1)"
| "runs (Alt r1 r2) ic s c = runs r1 ic s c \<union> runs r2 ic s c"
| "runs (Opt r) ic s c = insert (s, c) (runs r ic s c)"
| "runs (Group n r) ic s c = {(s', c'(n \<mapsto> take (length s - length s') s)) | s' c'. (s', c') \<in> runs r ic s c}"
| "runs Empty ic s c = {(s, c)}"

text \<open>A lower bound on the number of code units a match takes.\<close>

fun minLen :: "regex \<Rightarrow> nat" where
  "minLen (Atom A) = 1"
| "minLen (Plus A) = 1"
| "minLen (Seq r1 r2) = minLen r1 + minLen r2"
| "minLen (Alt r1 r2) = min (minLen r1) (minLen r2)"
| "minLen (Group n r) = minLen r"
| "minLen _ = 0"

text \<open>Whatever group \<open>n\<close> of \<open>r\<close> captures satisfies \<open>P\<close>.\<close>

fun captureSat :: "(jsstring \<Rightarrow> bool) \<Rightarrow> nat \<Rightarrow> bool \<Rightarrow> regex \<Rightarrow> bool" where
  "captureSat P n ic (Seq r1 r2) = (captureSat P n ic r1 \<and> captureSat P n ic r2)"
| "captureSat P n ic (Alt r1 r2) = (captureSat P n ic r1 \<and> captureSat P n ic r2)"
| "captureSat P n ic (Opt r) = captureSat P n ic r"
| "captureSat P n ic (Group m r) =
     (captureSat P n ic r \<and>
      (m = n \<longrightarrow> (\<forall>s c s' c'. (s', c') \<in> runs r ic s c \<longrightarrow> P (take (length s - length s') s))))"
| "captureSat P n ic _ = True"

text \<open>Group \<open>n\<close> takes part in every match of \<open>r\<close>.\<close>

fun alwaysCaptures :: "nat \<Rightarrow> regex \<Rightarrow> bool" where
  "alwaysCaptures n (Seq r1 r2) = (alwaysCaptures n r1 \<or> alwaysCaptures n r2)"
| "alwaysCaptures n (Alt r1 r2) = (alwaysCaptures n r1 \<and> alwaysCaptures n r2)"
| "alwaysCaptures n (Group m r) = (m = n \<or> alwaysCaptures n r)"
| "alwaysCaptures n _ = False"

text \<open>A string of decimal digits, at least one; a string that starts with a word character.\<close>

definition digits :: "jsstring \<Rightarrow> bool" where
  "digits g \<longleftrightarrow> g \<noteq> [] \<and> (\<forall>c \<in> set g. isDigit c)"

definition startsWord :: "jsstring \<Rightarrow> bool" where
  "startsWord g \<longleftrightarrow> (case g of [] \<Rightarrow> False | c # _ \<Rightarrow> isWordChar c)"

text \<open>
  The items in the order of the text: the item of a match, and the leftmost match from
  a position on, then the leftmost match from its end on, and so on for \<open>n\<close> rounds
  at most.
\<close>

definition itemOfMatch :: "regmatch \<Rightarrow> FoodItem" where
  "itemOfMatch m =
     \<lparr>name = trim (ToString (groups m 1)), weight = parseInt (ToString (groups m 2)),
      carbs = parseInt (ToString (groups m 4)), confidence = Some Low\<rparr>"

fun successiveMatches :: "nat \<Rightarrow> jsstring \<Rightarrow> nat \<Rightarrow> regmatch list" where
  "successiveMatches 0 text li = []"
| "successiveMatches (Suc n) text li =
     (case exec True foodItemRegex text li of
        None \<Rightarrow> []
      | Some m \<Rightarrow> m # successiveMatches n text (lastIndex m))"

text \<open>A Number that is an integer and not negative.\<close>

fun isNonNegInteger :: "jsnum \<Rightarrow> bool" where
  "isNonNegInteger NaN = False"
| "isNonNegInteger (Fin q) = (0 \<le> q \<and> of_int \<lfloor>q\<rfloor> = q)"

text \<open>An item as the fallback builds it.\<close>

definition lowConfidenceItem :: "FoodItem \<Rightarrow> bool" where
  "lowConfidenceItem item \<longleftrightarrow>
     confidence item = Some Low \<and> isNonNegInteger (weight item) \<and> isNonNegInteger (carbs item)"

text \<open>
  The record each of the three attempts gives, if it gives one, and the path the
  normalizer takes: direct parse, else embedded-object parse, else heuristic fallback.
\<close>

definition directRecord :: "jsstring \<Rightarrow> jsval option" where
  "directRecord content = (case parseCarbData content of Inl _ \<Rightarrow> None | Inr v \<Rightarrow> Some v)"

definition embeddedRecord :: "jsstring \<Rightarrow> jsval option" where
  "embeddedRecord content =
     (case exec False jsonRegex content 0 of
        None \<Rightarrow> None
      | Some m \<Rightarrow> directRecord (ToString (groups m 0)))"

definition fallbackRecord :: "jsstring \<Rightarrow> jsval option" where
  "fallbackRecord content =
     (case generateEstimatedCarbData content of
        Some (Inr d) \<Rightarrow> Some (js_of_CarbData d)
      | _ \<Rightarrow> None)"

datatype path = DirectParse | EmbeddedParse | HeuristicFallback

definition pathTaken :: "jsstring \<Rightarrow> path" where
  "pathTaken content =
     (if directRecord content \<noteq> None then DirectParse
      else if embeddedRecord content \<noteq> None then EmbeddedParse
      else HeuristicFallback)"

text \<open>A property of an object or array, by name.\<close>

definition field :: "jsval \<Rightarrow> string \<Rightarrow> jsval option" where
  "field v k = (case v of JObj ps \<Rightarrow> map_of ps (str k) | JArr es ps \<Rightarrow> map_of ps (str k)
                | _ \<Rightarrow> None)"

definition isNonNegative :: "rat \<Rightarrow> bool" where
  "isNonNegative q \<longleftrightarrow> 0 \<le> q"

definition isPositive :: "rat \<Rightarrow> bool" where
  "isPositive q \<longleftrightarrow> 0 < q"

fun numberWhere :: "(rat \<Rightarrow> bool) \<Rightarrow> jsval option \<Rightarrow> bool" where
  "numberWhere P (Some (JNum (Fin q))) = P q"
| "numberWhere P _ = False"

fun nonEmptyText :: "jsval option \<Rightarrow> bool" where
  "nonEmptyText (Some (JStr s)) = (s \<noteq> [])"
| "nonEmptyText _ = False"

text \<open>
  The invariants of the data model on a stored record: \<open>totalCarbs\<close>, \<open>fiber\<close>,
  \<open>sugar\<close>, \<open>starch\<close> and the \<open>carbs\<close> of every item are numbers that are not
  negative, the \<open>name\<close> of every item is a text that is not empty, and the \<open>weight\<close>
  of every item is a number that satisfies \<open>W\<close> (\<open>isPositive\<close> in the data model).
\<close>

definition validFoodItem :: "(rat \<Rightarrow> bool) \<Rightarrow> jsval \<Rightarrow> bool" where
  "validFoodItem W item \<longleftrightarrow>
     nonEmptyText (field item ''name'') \<and> numberWhere W (field item ''weight'')
     \<and> numberWhere isNonNegative (field item ''carbs'')"

definition validRecord :: "(rat \<Rightarrow> bool) \<Rightarrow> jsval \<Rightarrow> bool" where
  "validRecord W v \<longleftrightarrow>
     numberWhere isNonNegative (field v ''totalCarbs'')
     \<and> (case field v ''breakdown'' of
          None \<Rightarrow> False
        | Some b \<Rightarrow> numberWhere isNonNegative (field b ''fiber'')
                    \<and> numberWhere isNonNegative (field b ''sugar'')
                    \<and> numberWhere isNonNegative (field b ''starch''))
     \<and> (case field v ''foodItems'' of
          Some (JArr items extra) \<Rightarrow> list_all (validFoodItem W) items
        | _ \<Rightarrow> False)"

text \<open>
  The schema of the types \<open>CarbData\<close> and \<open>FoodItem\<close> on a parsed value, \<open>foodItems\<close>
  and \<open>confidence\<close> being optional.
\<close>

fun isNumber :: "jsval option \<Rightarrow> bool" where
  "isNumber (Some (JNum (Fin q))) = True"
| "isNumber _ = False"

fun isText :: "jsval option \<Rightarrow> bool" where
  "isText (Some (JStr s)) = True"
| "isText _ = False"

definition schemaFoodItem :: "jsval \<Rightarrow> bool" where
  "schemaFoodItem item \<longleftrightarrow>
     (case item of JObj ps \<Rightarrow> True | _ \<Rightarrow> False)
     \<and> isText (field item ''name'') \<and> isNumber (field item ''weight'')
     \<and> isNumber (field item ''carbs'')
     \<and> (case field item ''confidence'' of
          None \<Rightarrow> True
        | Some c \<Rightarrow> c = JStr (str ''high'') \<or> c = JStr (str ''medium'') \<or> c = JStr (str ''low''))"

definition matchesSchema :: "jsval \<Rightarrow> bool" where
  "matchesSchema v \<longleftrightarrow>
     (case v of JObj ps \<Rightarrow> True | _ \<Rightarrow> False)
     \<and> isNumber (field v ''totalCarbs'')
     \<and> (case field v ''breakdown'' of
          Some (JObj b) \<Rightarrow> isNumber (field (JObj b) ''fiber'') \<and> isNumber (field (JObj b) ''sugar'')
                          \<and> isNumber (field (JObj b) ''starch'')
        | _ \<Rightarrow> False)
     \<and> (case field v ''foodItems'' of
          None \<Rightarrow> True
        | Some (JArr items extra) \<Rightarrow> list_all schemaFoodItem items
        | _ \<Rightarrow> False)"

text \<open>The parsed value with an empty \<open>foodItems\<close> added as its last property.\<close>

definition withEmptyFoodItems :: "jsval \<Rightarrow> jsval" where
  "withEmptyFoodItems v =
     (case v of JObj ps \<Rightarrow> JObj (ps @ [(str ''foodItems'', JArr [] [])]) | _ \<Rightarrow> v)"



text \<open>The part of a text from its first \<open>{\<close> to its last \<open>}\<close>.\<close>

definition greedySpan :: "jsstring \<Rightarrow> jsstring" where
  "greedySpan content =
     rev (dropWhile (\<lambda>c. c \<noteq> 125) (rev (dropWhile (\<lambda>c. c \<noteq> 123) content)))"

section \<open>Properties of the matcher and of the fallback\<close>

subsection \<open>The matcher calls its continuation on a run of the pattern\<close>

lemma greedyStar_sound:
  "greedyStar p k s c = Some res \<Longrightarrow>
   \<exists>n. n \<le> length s \<and> (\<forall>x \<in> set (take n s). p x) \<and> k (drop n s) c = Some res"
proof (induction s)
  case Nil
  then show ?case by simp
next
  case (Cons x xs)
  show ?case
  proof (cases "p x \<and> greedyStar p k xs c \<noteq> None")
    case True
    with Cons.prems have "greedyStar p k xs c = Some res" by auto
    from Cons.IH[OF this] obtain n where
      n: "n \<le> length xs" "\<forall>y \<in> set (take n xs). p y" "k (drop n xs) c = Some res" by blast
    with True show ?thesis by (intro exI[of _ "Suc n"]) simp
  next
    case False
    with Cons.prems have "k (x # xs) c = Some res" by (auto split: if_splits option.splits)
    then show ?thesis by (intro exI[of _ 0]) simp
  qed
qed

lemma lazyStar_sound:
  "lazyStar p k s c = Some res \<Longrightarrow>
   \<exists>n. n \<le> length s \<and> (\<forall>x \<in> set (take n s). p x) \<and> k (drop n s) c = Some res"
proof (induction s)
  case Nil
  then show ?case by simp
next
  case (Cons x xs)
  show ?case
  proof (cases "k (x # xs) c")
    case (Some r)
    with Cons.prems have "k (x # xs) c = Some res" by simp
    then show ?thesis by (intro exI[of _ 0]) simp
  next
    case None
    with Cons.prems have px: "p x" and "lazyStar p k xs c = Some res"
      by (auto split: if_splits)
    from Cons.IH[OF this(2)] obtain n where
      n: "n \<le> length xs" "\<forall>y \<in> set (take n xs). p y" "k (drop n xs) c = Some res" by blast
    with px show ?thesis by (intro exI[of _ "Suc n"]) simp
  qed
qed

lemma matcher_sound:
  "matcher r ic k s c = Some res \<Longrightarrow> \<exists>(s', c') \<in> runs r ic s c. k s' c' = Some res"
proof (induction r arbitrary: k s c)
  case (Atom A)
  then show ?case by (auto split: list.splits if_splits)
next
  case (Star A)
  then show ?case using greedyStar_sound[of "classMatches ic A" k s c res] by auto
next
  case (Plus A)
  then obtain x xs where s: "s = x # xs" and x: "classMatches ic A x"
    and g: "greedyStar (classMatches ic A) k xs c = Some res"
    by (auto split: list.splits if_splits)
  from greedyStar_sound[OF g] obtain n where
    n: "n \<le> length xs" "\<forall>y \<in> set (take n xs). classMatches ic A y" "k (drop n xs) c = Some res"
    by blast
  have "(drop (Suc n) s, c) \<in> runs (Plus A) ic s c"
    using s x n by (simp del: drop_Suc_Cons) (rule exI[of _ "Suc n"], simp)
  then show ?case using n s by (intro bexI[of _ "(drop (Suc n) s, c)"]) auto
next
  case (LazyStar A)
  then show ?case using lazyStar_sound[of "classMatches ic A" k s c res] by auto
next
  case (Seq r1 r2)
  from Seq.prems have "matcher r1 ic (matcher r2 ic k) s c = Some res" by simp
  from Seq.IH(1)[OF this] obtain s1 c1 where
    1: "(s1, c1) \<in> runs r1 ic s c" and "matcher r2 ic k s1 c1 = Some res" by auto
  from Seq.IH(2)[OF this(2)] obtain s2 c2 where
    "(s2, c2) \<in> runs r2 ic s1 c1" "k s2 c2 = Some res" by auto
  with 1 show ?case by force
next
  case (Alt r1 r2)
  then show ?case by (fastforce split: option.splits)
next
  case (Opt r)
  then show ?case by (fastforce split: option.splits)
next
  case (Group n r)
  from Group.prems have
    "matcher r ic (\<lambda>s' c'. k s' (c'(n \<mapsto> take (length s - length s') s))) s c = Some res"
    by simp
  from Group.IH[OF this] show ?case by fastforce
next
  case Empty
  then show ?case by simp
qed

lemma runs_minLen: "(s', c') \<in> runs r ic s c \<Longrightarrow> length s' + minLen r \<le> length s"
proof (induction r arbitrary: s c s' c')
  case (Seq r1 r2)
  then obtain s1 c1 where "(s1, c1) \<in> runs r1 ic s c" "(s', c') \<in> runs r2 ic s1 c1" by auto
  with Seq.IH(1)[of s1 c1 s c] Seq.IH(2)[of s' c' s1 c1]
  show ?case by simp
next
  case (Alt r1 r2)
  then show ?case by fastforce
next
  case (Opt r)
  then show ?case by fastforce
next
  case (Group n r)
  then show ?case by fastforce
qed auto

subsection \<open>Runs: length and captures\<close>

lemma runs_Seq_iff:
  "(s', c') \<in> runs (Seq r1 r2) ic s c \<longleftrightarrow>
   (\<exists>s1 c1. (s1, c1) \<in> runs r1 ic s c \<and> (s', c') \<in> runs r2 ic s1 c1)"
  by auto

lemma runs_Group_iff:
  "(s', c') \<in> runs (Group m r) ic s c \<longleftrightarrow>
   (\<exists>c0. (s', c0) \<in> runs r ic s c \<and> c' = c0(m \<mapsto> take (length s - length s') s))"
  by auto

lemma runs_Alt_iff:
  "(s', c') \<in> runs (Alt r1 r2) ic s c \<longleftrightarrow>
   (s', c') \<in> runs r1 ic s c \<or> (s', c') \<in> runs r2 ic s c"
  by simp

lemma runs_Opt_iff:
  "(s', c') \<in> runs (Opt r) ic s c \<longleftrightarrow> (s' = s \<and> c' = c) \<or> (s', c') \<in> runs r ic s c"
  by auto

lemma runs_captureSat:
  "(s', c') \<in> runs r ic s c \<Longrightarrow> captureSat P n ic r \<Longrightarrow> (\<And>g. c n = Some g \<Longrightarrow> P g)
   \<Longrightarrow> c' n = Some g \<Longrightarrow> P g"
proof (induction r arbitrary: s c s' c' g)
  case (Seq r1 r2)
  from Seq.prems(1) obtain s1 c1 where
    1: "(s1, c1) \<in> runs r1 ic s c" and 2: "(s', c') \<in> runs r2 ic s1 c1"
    unfolding runs_Seq_iff by blast
  from Seq.prems(2) have sat: "captureSat P n ic r1" "captureSat P n ic r2" by simp_all
  have "\<And>h. c1 n = Some h \<Longrightarrow> P h" using Seq.IH(1)[OF 1 sat(1)] Seq.prems(3) by blast
  from Seq.IH(2)[OF 2 sat(2) this Seq.prems(4)] show ?case .
next
  case (Alt r1 r2)
  from Alt.prems(1) have "(s', c') \<in> runs r1 ic s c \<or> (s', c') \<in> runs r2 ic s c"
    unfolding runs_Alt_iff .
  moreover from Alt.prems(2) have "captureSat P n ic r1" "captureSat P n ic r2" by simp_all
  ultimately show ?case using Alt.IH Alt.prems(3,4) by blast
next
  case (Opt r)
  from Opt.prems(1) have "(s' = s \<and> c' = c) \<or> (s', c') \<in> runs r ic s c"
    unfolding runs_Opt_iff .
  moreover from Opt.prems(2) have "captureSat P n ic r" by simp
  ultimately show ?case using Opt.IH Opt.prems(3,4) by blast
next
  case (Group m r)
  from Group.prems(1) obtain c0 where
    0: "(s', c0) \<in> runs r ic s c" and c': "c' = c0(m \<mapsto> take (length s - length s') s)"
    unfolding runs_Group_iff by blast
  from Group.prems(2) have sat: "captureSat P n ic r"
    and body: "m = n \<Longrightarrow> P (take (length s - length s') s)"
    using 0 by auto
  show ?case
  proof (cases "m = n")
    case True
    with Group.prems(4) c' have "g = take (length s - length s') s" by simp
    with body[OF True] show ?thesis by simp
  next
    case False
    with c' Group.prems(4) have "c0 n = Some g" by simp
    from Group.IH[OF 0 sat Group.prems(3) this] show ?thesis .
  qed
next
  case (Atom A)
  then show ?case by auto
next
  case (Star A)
  then show ?case by auto
next
  case (Plus A)
  then show ?case by auto
next
  case (LazyStar A)
  then show ?case by auto
next
  case Empty
  then show ?case by auto
qed

lemma runs_keeps: "(s', c') \<in> runs r ic s c \<Longrightarrow> c n \<noteq> None \<Longrightarrow> c' n \<noteq> None"
proof (induction r arbitrary: s c s' c')
  case (Seq r1 r2)
  from Seq.prems(1) obtain s1 c1 where
    1: "(s1, c1) \<in> runs r1 ic s c" and 2: "(s', c') \<in> runs r2 ic s1 c1"
    unfolding runs_Seq_iff by blast
  from Seq.IH(1)[OF 1 Seq.prems(2)] have "c1 n \<noteq> None" .
  from Seq.IH(2)[OF 2 this] show ?case .
next
  case (Alt r1 r2)
  from Alt.prems(1) have "(s', c') \<in> runs r1 ic s c \<or> (s', c') \<in> runs r2 ic s c"
    unfolding runs_Alt_iff .
  with Alt.IH Alt.prems(2) show ?case by blast
next
  case (Opt r)
  from Opt.prems(1) have "(s' = s \<and> c' = c) \<or> (s', c') \<in> runs r ic s c"
    unfolding runs_Opt_iff .
  with Opt.IH Opt.prems(2) show ?case by blast
next
  case (Group m r)
  from Group.prems(1) obtain c0 where
    0: "(s', c0) \<in> runs r ic s c" and c': "c' = c0(m \<mapsto> take (length s - length s') s)"
    unfolding runs_Group_iff by blast
  from Group.IH[OF 0 Group.prems(2)] c' show ?case by simp
qed auto

lemma runs_alwaysCaptures:
  "(s', c') \<in> runs r ic s c \<Longrightarrow> alwaysCaptures n r \<Longrightarrow> c' n \<noteq> None"
proof (induction r arbitrary: s c s' c')
  case (Seq r1 r2)
  from Seq.prems(1) obtain s1 c1 where
    1: "(s1, c1) \<in> runs r1 ic s c" and 2: "(s', c') \<in> runs r2 ic s1 c1"
    unfolding runs_Seq_iff by blast
  show ?case
  proof (cases "alwaysCaptures n r1")
    case True
    from runs_keeps[OF 2 Seq.IH(1)[OF 1 True]] show ?thesis .
  next
    case False
    with Seq.prems(2) have "alwaysCaptures n r2" by simp
    from Seq.IH(2)[OF 2 this] show ?thesis .
  qed
next
  case (Alt r1 r2)
  from Alt.prems(1) have "(s', c') \<in> runs r1 ic s c \<or> (s', c') \<in> runs r2 ic s c"
    unfolding runs_Alt_iff .
  moreover from Alt.prems(2) have "alwaysCaptures n r1" "alwaysCaptures n r2" by simp_all
  ultimately show ?case using Alt.IH by blast
next
  case (Group m r)
  from Group.prems(1) obtain c0 where
    0: "(s', c0) \<in> runs r ic s c" and c': "c' = c0(m \<mapsto> take (length s - length s') s)"
    unfolding runs_Group_iff by blast
  show ?case
  proof (cases "m = n")
    case True
    with c' show ?thesis by simp
  next
    case False
    with Group.prems(2) have "alwaysCaptures n r" by simp
    from Group.IH[OF 0 this] c' show ?thesis by simp
  qed
qed simp_all

subsection \<open>What a match of \<open>exec\<close> satisfies\<close>

lemma matchAt_sound:
  assumes "matchAt ic r i s = Some m"
  shows "\<exists>s' c'. (s', c') \<in> runs r ic s (\<lambda>_. None) \<and> index m = i
           \<and> lastIndex m = i + (length s - length s')
           \<and> groups m = c'(0 \<mapsto> take (length s - length s') s)"
proof -
  from assms matcher_sound[of r ic _ s "\<lambda>_. None" m]
  obtain s' c' where run: "(s', c') \<in> runs r ic s (\<lambda>_. None)"
    and "Some \<lparr>index = i, lastIndex = i + (length s - length s'),
                groups = c'(0 \<mapsto> take (length s - length s') s)\<rparr> = Some m"
    unfolding matchAt_def by fast
  then have "index m = i \<and> lastIndex m = i + (length s - length s')
      \<and> groups m = c'(0 \<mapsto> take (length s - length s') s)" by auto
  with run show ?thesis by blast
qed

lemma scan_sound:
  "scan ic r i s = Some m \<Longrightarrow> \<exists>j \<le> length s. matchAt ic r (i + j) (drop j s) = Some m"
proof (induction s arbitrary: i)
  case Nil
  then show ?case by simp
next
  case (Cons x xs)
  show ?case
  proof (cases "matchAt ic r i (x # xs)")
    case (Some m')
    with Cons.prems have "matchAt ic r (i + 0) (drop 0 (x # xs)) = Some m" by simp
    then show ?thesis by blast
  next
    case None
    with Cons.prems have "scan ic r (Suc i) xs = Some m" by simp
    from Cons.IH[OF this] obtain j where "j \<le> length xs"
      "matchAt ic r (Suc i + j) (drop j xs) = Some m" by blast
    then have "Suc j \<le> length (x # xs)"
      "matchAt ic r (i + Suc j) (drop (Suc j) (x # xs)) = Some m" by simp_all
    then show ?thesis by blast
  qed
qed

lemma exec_sound:
  assumes "exec ic r text li = Some m"
  shows "\<exists>j s' c'. li \<le> j \<and> j \<le> length text
           \<and> (s', c') \<in> runs r ic (drop j text) (\<lambda>_. None)
           \<and> index m = j \<and> lastIndex m = j + (length text - j - length s')
           \<and> groups m = c'(0 \<mapsto> take (length text - j - length s') (drop j text))"
proof -
  from assms have li: "li \<le> length text" and sc: "scan ic r li (drop li text) = Some m"
    by (auto simp: exec_def split: if_splits)
  from scan_sound[OF sc] obtain j where j: "j \<le> length text - li"
    and ma: "matchAt ic r (li + j) (drop (li + j) text) = Some m" by (auto simp: add.commute)
  from matchAt_sound[OF ma] obtain s' c' where
    "(s', c') \<in> runs r ic (drop (li + j) text) (\<lambda>_. None)" "index m = li + j"
    "lastIndex m = li + j + (length (drop (li + j) text) - length s')"
    "groups m = c'(0 \<mapsto> take (length (drop (li + j) text) - length s') (drop (li + j) text))"
    by blast
  with li j show ?thesis by (intro exI[of _ "li + j"] exI[of _ s'] exI[of _ c']) simp
qed

lemma exec_bounds:
  assumes "exec ic r text li = Some m"
  shows "li \<le> index m \<and> index m + minLen r \<le> lastIndex m \<and> lastIndex m \<le> length text"
proof -
  from exec_sound[OF assms] obtain j s' c' where
    j: "li \<le> j" "j \<le> length text" and run: "(s', c') \<in> runs r ic (drop j text) (\<lambda>_. None)"
    and m: "index m = j" "lastIndex m = j + (length text - j - length s')" by blast
  from runs_minLen[OF run] have "length s' + minLen r \<le> length text - j" by simp
  with j m show ?thesis by simp
qed

lemma exec_group:
  assumes "exec ic r text li = Some m" and "captureSat P n ic r" and "alwaysCaptures n r"
    and "n \<noteq> 0"
  shows "\<exists>g. groups m n = Some g \<and> P g"
proof -
  from exec_sound[OF assms(1)] obtain j s' c' where
    run: "(s', c') \<in> runs r ic (drop j text) (\<lambda>_. None)"
    and m: "groups m = c'(0 \<mapsto> take (length text - j - length s') (drop j text))" by blast
  from runs_alwaysCaptures[OF run assms(3)] obtain g where g: "c' n = Some g" by auto
  from runs_captureSat[OF run assms(2) _ g] have "P g" by simp
  with g m assms(4) show ?thesis by simp
qed

subsection \<open>The patterns of the fallback\<close>

lemma runs_Plus_Digit:
  "(s', c') \<in> runs (Plus Digit) ic s c \<Longrightarrow> digits (take (length s - length s') s)"
  by (auto simp: digits_def)

lemma runs_word_group:
  assumes "(s', c') \<in> runs (Seq (Plus WordChar) (LazyStar A)) ic s c"
  shows "startsWord (take (length s - length s') s)"
proof -
  from assms obtain s1 c1 where 1: "(s1, c1) \<in> runs (Plus WordChar) ic s c"
    and 2: "(s', c') \<in> runs (LazyStar A) ic s1 c1" unfolding runs_Seq_iff by blast
  from 1 obtain k where k: "0 < k" "k \<le> length s" "s1 = drop k s"
    "\<forall>x \<in> set (take k s). isWordChar x" by auto
  from 2 obtain j where j: "s' = drop j s1" by auto
  from k obtain x xs where s: "s = x # xs" by (cases s) auto
  with k have "isWordChar x" by (cases k) auto
  moreover from k j s have "length s - length s' > 0" by simp
  ultimately show ?thesis using s by (cases "length s - length s'") (auto simp: startsWord_def)
qed

lemma captureSat_lit [simp]: "captureSat P n ic (lit w)"
  unfolding lit_def seq_def by (induction w) simp_all

lemma gramsOf_digits: "captureSat digits (Suc 0) ic w \<Longrightarrow> captureSat digits (Suc 0) ic (gramsOf w)"
  unfolding gramsOf_def seq_def by (simp add: runs_Plus_Digit del: runs.simps)

lemma gramsOf_captures: "alwaysCaptures (Suc 0) (gramsOf w)"
  unfolding gramsOf_def seq_def by simp

lemma foodItemRegex_minLen: "minLen foodItemRegex \<ge> 1"
  unfolding foodItemRegex_def seq_def by simp

lemma foodItemRegex_group1: "captureSat startsWord (Suc 0) True foodItemRegex"
  unfolding foodItemRegex_def seq_def by (simp add: runs_word_group del: runs.simps)

lemma foodItemRegex_group2: "captureSat digits 2 True foodItemRegex"
  unfolding foodItemRegex_def seq_def by (simp add: runs_Plus_Digit del: runs.simps)

lemma foodItemRegex_group4: "captureSat digits 4 True foodItemRegex"
  unfolding foodItemRegex_def seq_def by (simp add: runs_Plus_Digit del: runs.simps)

lemma foodItemRegex_captures:
  "alwaysCaptures (Suc 0) foodItemRegex" "alwaysCaptures 2 foodItemRegex"
  "alwaysCaptures 4 foodItemRegex"
  unfolding foodItemRegex_def seq_def by simp_all

subsection \<open>\<open>parseInt\<close> and \<open>trim\<close> on what the groups capture\<close>

lemma digit_not_space: "isDigit c \<Longrightarrow> \<not> isWhiteSpace c"
  by (auto simp: isDigit_def isWhiteSpace_def)

lemma word_not_space: "isWordChar c \<Longrightarrow> \<not> isWhiteSpace c"
  by (auto simp: isWordChar_def isDigit_def isWhiteSpace_def)

lemma digitValue_10: "digitValue 10 c \<noteq> None \<longleftrightarrow> isDigit c"
  by (auto simp: digitValue_def isDigit_def Let_def)

lemma parseInt_digits:
  assumes "digits g"
  shows "parseInt g = Fin (of_nat (radixValue 10 g))"
proof -
  from assms obtain c cs where g: "g = c # cs" and c: "isDigit c"
    and cs: "\<forall>x \<in> set cs. isDigit x" by (cases g) (auto simp: digits_def)
  have ws: "dropWhile isWhiteSpace g = g" using g c digit_not_space by simp
  have sign: "c \<noteq> 43" "c \<noteq> 45" using c by (auto simp: isDigit_def)
  have hex: "\<not> (case g of c # d # _ \<Rightarrow> c = 48 \<and> (d = 120 \<or> d = 88) | _ \<Rightarrow> False)"
    using g cs by (cases cs) (auto simp: isDigit_def)
  have tw: "takeWhile (\<lambda>c. digitValue 10 c \<noteq> None) g = g"
    using g c cs by (simp add: digitValue_10 del: not_None_eq)
  show ?thesis
    unfolding parseInt_def Let_def ws using sign hex tw g by simp
qed

lemma trim_startsWord:
  assumes "startsWord g"
  shows "trim g \<noteq> []"
proof -
  from assms obtain c cs where g: "g = c # cs" and c: "\<not> isWhiteSpace c"
    by (cases g) (auto simp: startsWord_def word_not_space)
  then have "dropWhile isWhiteSpace g = g" by simp
  moreover have "dropWhile isWhiteSpace (rev g) \<noteq> []"
    using g c by auto
  ultimately show ?thesis by (simp add: trim_def)
qed

subsection \<open>The loop over the items returns\<close>

lemma foodItem_match:
  assumes "exec True foodItemRegex text li = Some m"
  shows "li \<le> index m" "index m < lastIndex m" "lastIndex m \<le> length text"
    "\<exists>g. groups m 1 = Some g \<and> startsWord g"
    "\<exists>g. groups m 2 = Some g \<and> digits g"
    "\<exists>g. groups m 4 = Some g \<and> digits g"
proof -
  from exec_bounds[OF assms] foodItemRegex_minLen
  show "li \<le> index m" "index m < lastIndex m" "lastIndex m \<le> length text" by simp_all
  from exec_group[OF assms foodItemRegex_group1 foodItemRegex_captures(1)]
  show "\<exists>g. groups m 1 = Some g \<and> startsWord g" by simp
  from exec_group[OF assms foodItemRegex_group2 foodItemRegex_captures(2)]
  show "\<exists>g. groups m 2 = Some g \<and> digits g" by simp
  from exec_group[OF assms foodItemRegex_group4 foodItemRegex_captures(3)]
  show "\<exists>g. groups m 4 = Some g \<and> digits g" by simp
qed

lemma foodItemOf_match:
  assumes "exec True foodItemRegex text li = Some m"
  shows "foodItemOf m = Inr (itemOfMatch m)"
  using foodItem_match(4)[OF assms] by (auto simp: foodItemOf_def itemOfMatch_def ToString_def)

lemma execLoop_eq:
  "Suc (length text) - li \<le> n \<Longrightarrow>
   execLoop text li items = Some (Inr (items @ map itemOfMatch (successiveMatches n text li)))"
proof (induction n arbitrary: li items)
  case 0
  then have "exec True foodItemRegex text li = None" by (simp add: exec_def)
  then show ?case by (subst execLoop.simps) simp
next
  case (Suc n)
  show ?case
  proof (cases "exec True foodItemRegex text li")
    case None
    then show ?thesis by (subst execLoop.simps) simp
  next
    case (Some m)
    from foodItem_match(1-3)[OF Some] Suc.prems have "Suc (length text) - lastIndex m \<le> n"
      by simp
    from Suc.IH[OF this] have
      "execLoop text (lastIndex m) (items @ [itemOfMatch m]) =
       Some (Inr ((items @ [itemOfMatch m]) @ map itemOfMatch (successiveMatches n text (lastIndex m))))" .
    with Some foodItemOf_match[OF Some] show ?thesis by (subst execLoop.simps) simp
  qed
qed

lemma generate_eq:
  "generateEstimatedCarbData text =
     Some (Inr (let items = map itemOfMatch (successiveMatches (Suc (length text)) text 0)
                in if items = [] then fallbackTotals text
                   else (fallbackTotals text)\<lparr>foodItems := items\<rparr>))"
  unfolding generateEstimatedCarbData_def Let_def
  using execLoop_eq[of "text" 0 "Suc (length text)" "[]"] by simp

lemma isNonNegInteger_of_nat [simp]: "isNonNegInteger (Fin (of_nat n))"
  by simp

lemma isNonNegInteger_numeral: "isNonNegInteger (Fin (numeral k))"
  by simp

lemma isNonNegInteger_add:
  assumes "isNonNegInteger a" and "isNonNegInteger b"
  shows "isNonNegInteger (num_add a b)"
proof -
  from assms obtain p q where ab: "a = Fin p" "b = Fin q"
    by (cases a; cases b) auto
  with assms have pos: "0 \<le> p" "0 \<le> q" and fl: "of_int \<lfloor>p\<rfloor> = p" "of_int \<lfloor>q\<rfloor> = q"
    by (simp_all del: of_int_floor_cancel)
  have "p + q = of_int (\<lfloor>p\<rfloor> + \<lfloor>q\<rfloor>)" using fl by (metis of_int_add)
  then have "of_int \<lfloor>p + q\<rfloor> = p + q" by (metis floor_of_int)
  with pos ab show ?thesis by (simp del: of_int_floor_cancel)
qed

lemma gramsOf_first_group:
  assumes "exec True (gramsOf w) text 0 = Some m" and "captureSat digits (Suc 0) True w"
  shows "isNonNegInteger (parseInt (ToString (groups m 1)))"
proof -
  from exec_group[OF assms(1) gramsOf_digits[OF assms(2)] gramsOf_captures]
  obtain g where "groups m 1 = Some g" "digits g" by auto
  then show ?thesis by (simp add: ToString_def parseInt_digits)
qed

lemma word_captureSat:
  "captureSat digits (Suc 0) True (Group 4 (Alt (lit ''carb'') (lit ''carbohydrate'')))"
  "captureSat digits (Suc 0) True (lit w)"
  by (simp_all del: runs.simps)

lemma carbRegex_number:
  "exec True carbRegex text 0 = Some m \<Longrightarrow> isNonNegInteger (parseInt (ToString (groups m 1)))"
  unfolding carbRegex_def by (rule gramsOf_first_group[OF _ word_captureSat(1)])

lemma fiberRegex_number:
  "exec True fiberRegex text 0 = Some m \<Longrightarrow> isNonNegInteger (parseInt (ToString (groups m 1)))"
  unfolding fiberRegex_def by (rule gramsOf_first_group[OF _ word_captureSat(2)])

lemma sugarRegex_number:
  "exec True sugarRegex text 0 = Some m \<Longrightarrow> isNonNegInteger (parseInt (ToString (groups m 1)))"
  unfolding sugarRegex_def by (rule gramsOf_first_group[OF _ word_captureSat(2)])

lemma starchRegex_number:
  "exec True starchRegex text 0 = Some m \<Longrightarrow> isNonNegInteger (parseInt (ToString (groups m 1)))"
  unfolding starchRegex_def by (rule gramsOf_first_group[OF _ word_captureSat(2)])

text \<open>The numbers of the fallback, one case for each pattern that matched or did not.\<close>

lemma fallbackTotals_breakdown:
  "fiber (breakdown (fallbackTotals text)) =
     (case exec True fiberRegex text 0 of None \<Rightarrow> Fin 5
      | Some m \<Rightarrow> parseInt (ToString (groups m 1)))"
  "sugar (breakdown (fallbackTotals text)) =
     (case exec True sugarRegex text 0 of None \<Rightarrow> Fin 10
      | Some m \<Rightarrow> parseInt (ToString (groups m 1)))"
  "starch (breakdown (fallbackTotals text)) =
     (case exec True starchRegex text 0 of None \<Rightarrow> Fin 15
      | Some m \<Rightarrow> parseInt (ToString (groups m 1)))"
  unfolding fallbackTotals_def Let_def by (simp_all split: option.splits)

lemma fallbackTotals_total:
  "totalCarbs (fallbackTotals text) =
     (case exec True carbRegex text 0 of
        Some m \<Rightarrow> parseInt (ToString (groups m 1))
      | None \<Rightarrow>
          if exec True fiberRegex text 0 \<noteq> None \<or> exec True sugarRegex text 0 \<noteq> None
             \<or> exec True starchRegex text 0 \<noteq> None
          then num_add (num_add (fiber (breakdown (fallbackTotals text)))
                                (sugar (breakdown (fallbackTotals text))))
                       (starch (breakdown (fallbackTotals text)))
          else Fin 30)"
  unfolding fallbackTotals_def Let_def by (simp split: option.splits)

lemma fallbackTotals_items: "foodItems (fallbackTotals text) = [defaultItem]"
  unfolding fallbackTotals_def Let_def by (simp split: option.splits)

lemma fallbackTotals_numbers:
  "isNonNegInteger (fiber (breakdown (fallbackTotals text)))"
  "isNonNegInteger (sugar (breakdown (fallbackTotals text)))"
  "isNonNegInteger (starch (breakdown (fallbackTotals text)))"
  "isNonNegInteger (totalCarbs (fallbackTotals text))"
proof -
  show f: "isNonNegInteger (fiber (breakdown (fallbackTotals text)))"
    unfolding fallbackTotals_breakdown
    by (auto simp del: One_nat_def isNonNegInteger.simps split: option.splits
          intro: fiberRegex_number isNonNegInteger_numeral)
  show s: "isNonNegInteger (sugar (breakdown (fallbackTotals text)))"
    unfolding fallbackTotals_breakdown
    by (auto simp del: One_nat_def isNonNegInteger.simps split: option.splits
          intro: sugarRegex_number isNonNegInteger_numeral)
  show t: "isNonNegInteger (starch (breakdown (fallbackTotals text)))"
    unfolding fallbackTotals_breakdown
    by (auto simp del: One_nat_def isNonNegInteger.simps split: option.splits
          intro: starchRegex_number isNonNegInteger_numeral)
  have sum: "isNonNegInteger (num_add (num_add (fiber (breakdown (fallbackTotals text)))
                                (sugar (breakdown (fallbackTotals text))))
                       (starch (breakdown (fallbackTotals text))))"
    by (intro isNonNegInteger_add f s t)
  show "isNonNegInteger (totalCarbs (fallbackTotals text))"
    by (subst fallbackTotals_total)
       (auto simp del: One_nat_def isNonNegInteger.simps split: option.splits
          intro: carbRegex_number sum isNonNegInteger_numeral)
qed

lemma successiveMatches_exec:
  "m \<in> set (successiveMatches n text li) \<Longrightarrow> \<exists>li'. exec True foodItemRegex text li' = Some m"
proof (induction n arbitrary: li)
  case 0
  then show ?case by simp
next
  case (Suc n)
  then show ?case by (cases "exec True foodItemRegex text li") auto
qed

lemma successiveMatches_from:
  "m \<in> set (successiveMatches n text li) \<Longrightarrow> li \<le> index m"
proof (induction n arbitrary: li)
  case 0
  then show ?case by simp
next
  case (Suc n)
  show ?case
  proof (cases "exec True foodItemRegex text li")
    case None
    with Suc.prems show ?thesis by simp
  next
    case (Some m0)
    from foodItem_match(1,2)[OF Some] have le: "li \<le> index m0" "index m0 < lastIndex m0" .
    from Suc.prems Some have "m = m0 \<or> m \<in> set (successiveMatches n text (lastIndex m0))"
      by simp
    then show ?thesis
    proof
      assume "m = m0" with le show ?thesis by simp
    next
      assume "m \<in> set (successiveMatches n text (lastIndex m0))"
      from Suc.IH[OF this] le show ?thesis by simp
    qed
  qed
qed

lemma successiveMatches_sorted:
  "sorted_wrt (\<lambda>a b. lastIndex a \<le> index b) (successiveMatches n text li)"
proof (induction n arbitrary: li)
  case 0
  then show ?case by simp
next
  case (Suc n)
  show ?case
  proof (cases "exec True foodItemRegex text li")
    case None
    then show ?thesis by simp
  next
    case (Some m0)
    with Suc.IH[of "lastIndex m0"] successiveMatches_from[of _ n "text" "lastIndex m0"]
    show ?thesis by simp
  qed
qed

lemma itemOfMatch_shape:
  assumes "exec True foodItemRegex text li = Some m"
  shows "name (itemOfMatch m) \<noteq> []" "isNonNegInteger (weight (itemOfMatch m))"
    "isNonNegInteger (carbs (itemOfMatch m))" "confidence (itemOfMatch m) = Some Low"
proof -
  from foodItem_match(4)[OF assms] show "name (itemOfMatch m) \<noteq> []"
    by (auto simp: itemOfMatch_def ToString_def trim_startsWord)
  from foodItem_match(5)[OF assms] show "isNonNegInteger (weight (itemOfMatch m))"
    by (auto simp: itemOfMatch_def ToString_def parseInt_digits)
  from foodItem_match(6)[OF assms] show "isNonNegInteger (carbs (itemOfMatch m))"
    by (auto simp: itemOfMatch_def ToString_def parseInt_digits)
  show "confidence (itemOfMatch m) = Some Low" by (simp add: itemOfMatch_def)
qed

lemma defaultItem_shape:
  "name defaultItem \<noteq> []" "isNonNegInteger (weight defaultItem)"
  "isNonNegInteger (carbs defaultItem)" "confidence defaultItem = Some Low"
  by (simp_all add: defaultItem_def str_def)

lemma generated_record_shape:
  "\<exists>d. generateEstimatedCarbData text = Some (Inr d)
       \<and> foodItems d \<noteq> []
       \<and> list_all lowConfidenceItem (foodItems d)
       \<and> list_all (\<lambda>item. name item \<noteq> []) (foodItems d)
       \<and> isNonNegInteger (totalCarbs d)
       \<and> isNonNegInteger (fiber (breakdown d))
       \<and> isNonNegInteger (sugar (breakdown d))
       \<and> isNonNegInteger (starch (breakdown d))"
proof -
  define ms where "ms = successiveMatches (Suc (length text)) text 0"
  define d where "d = (if map itemOfMatch ms = [] then fallbackTotals text
                       else (fallbackTotals text)\<lparr>foodItems := map itemOfMatch ms\<rparr>)"
  have gen: "generateEstimatedCarbData text = Some (Inr d)"
    unfolding d_def ms_def generate_eq Let_def by simp
  have items: "foodItems d = (if ms = [] then [defaultItem] else map itemOfMatch ms)"
    unfolding d_def by (simp add: fallbackTotals_items)
  have "lowConfidenceItem (itemOfMatch m) \<and> name (itemOfMatch m) \<noteq> []" if "m \<in> set ms" for m
  proof -
    from that obtain li' where "exec True foodItemRegex text li' = Some m"
      unfolding ms_def using successiveMatches_exec by blast
    from itemOfMatch_shape[OF this] show ?thesis
      unfolding lowConfidenceItem_def by blast
  qed
  then have "list_all lowConfidenceItem (map itemOfMatch ms)"
    "list_all (\<lambda>item. name item \<noteq> []) (map itemOfMatch ms)"
    by (simp_all add: list_all_iff)
  moreover have "lowConfidenceItem defaultItem" "name defaultItem \<noteq> []"
    unfolding lowConfidenceItem_def using defaultItem_shape by simp_all
  ultimately have all: "list_all lowConfidenceItem (foodItems d)"
    "list_all (\<lambda>item. name item \<noteq> []) (foodItems d)"
    unfolding items by simp_all
  have nums: "totalCarbs d = totalCarbs (fallbackTotals text)"
    "breakdown d = breakdown (fallbackTotals text)"
    unfolding d_def by simp_all
  from gen items all nums fallbackTotals_numbers[of "text"] show ?thesis
    by (intro exI[of _ d]) (simp del: isNonNegInteger.simps)
qed

section \<open>The heuristic fallback\<close>


subsection \<open>Evaluating the matcher and the fallback on a given text\<close>

lemmas rx_eval = exec_def matchAt_def str_def seq_def lit_def
  isDigit_def isWordChar_def isWhiteSpace_def canonicalize_def
  gramsOf_def carbRegex_def fiberRegex_def sugarRegex_def starchRegex_def foodItemRegex_def

lemma successiveMatches_unfold:
  "0 < n \<Longrightarrow> successiveMatches n text li =
     (case exec True foodItemRegex text li of
        None \<Rightarrow> []
      | Some m \<Rightarrow> m # successiveMatches (n - 1) text (lastIndex m))"
  by (cases n) (simp_all split: option.splits)

lemmas num_eval = parseInt_def ToString_def trim_def digitValue_def radixValue_def Let_def

lemmas fallback_eval = generate_eq successiveMatches_unfold fallbackTotals_def itemOfMatch_def
  defaultItem_def

text \<open>
  Claim C3, amended. When the item pattern matches nowhere in the text, the record
  returned is the one of the recovered numbers, and its \<open>foodItems\<close> is the single
  default item: name "Unknown food item", weight 100, confidence \<open>low\<close>, and carbs 30,
  the fixed default, whatever total was recovered.
\<close>

theorem default_item_when_no_match:
  assumes "exec True foodItemRegex text 0 = None"
  shows "generateEstimatedCarbData text = Some (Inr (fallbackTotals text))
         \<and> foodItems (fallbackTotals text) =
             [\<lparr>name = str ''Unknown food item'', weight = Fin 100, carbs = Fin 30,
               confidence = Some Low\<rparr>]"
  unfolding generate_eq fallbackTotals_items using assms by (simp add: defaultItem_def)

theorem default_item_when_no_match_witness:
  "exec True foodItemRegex (str ''42g of carbs'') 0 = None
   \<and> generateEstimatedCarbData (str ''42g of carbs'') =
       Some (Inr (fallbackTotals (str ''42g of carbs'')))
   \<and> foodItems (fallbackTotals (str ''42g of carbs'')) =
       [\<lparr>name = str ''Unknown food item'', weight = Fin 100, carbs = Fin 30,
         confidence = Some Low\<rparr>]"
proof -
  have h: "exec True foodItemRegex (str ''42g of carbs'') 0 = None" by (simp add: rx_eval)
  from default_item_when_no_match[OF h] h show ?thesis by simp
qed

text \<open>
  Claim C3 as stated fails: for the text "42g of carbs" no item matches, the total
  recovered is 42, and the carbs of the default item are 30.
\<close>

theorem default_item_carbs_counterexample:
  "exec True foodItemRegex (str ''42g of carbs'') 0 = None
   \<and> generateEstimatedCarbData (str ''42g of carbs'') =
       Some (Inr \<lparr>totalCarbs = Fin 42,
                  breakdown = \<lparr>fiber = Fin 5, sugar = Fin 10, starch = Fin 15\<rparr>,
                  foodItems = [\<lparr>name = str ''Unknown food item'', weight = Fin 100,
                                carbs = Fin 30, confidence = Some Low\<rparr>]\<rparr>)"
  by (simp add: fallback_eval num_eval rx_eval)

text \<open>
  Claim C2, amended. When no total-carb phrase matches and at least one of the fiber,
  sugar and starch patterns does, \<open>totalCarbs\<close> is the sum of the three components of
  the record, where a component whose pattern matched is the number matched and a
  component whose pattern did not match keeps its default (fiber 5, sugar 10, starch 15).
\<close>

theorem total_is_sum_of_breakdown:
  assumes "exec True carbRegex text 0 = None"
    and "exec True fiberRegex text 0 \<noteq> None \<or> exec True sugarRegex text 0 \<noteq> None
         \<or> exec True starchRegex text 0 \<noteq> None"
  shows "\<exists>d. generateEstimatedCarbData text = Some (Inr d)
     \<and> totalCarbs d =
         num_add (num_add (fiber (breakdown d)) (sugar (breakdown d))) (starch (breakdown d))
     \<and> fiber (breakdown d) =
         (case exec True fiberRegex text 0 of None \<Rightarrow> Fin 5
          | Some m \<Rightarrow> parseInt (ToString (groups m 1)))
     \<and> sugar (breakdown d) =
         (case exec True sugarRegex text 0 of None \<Rightarrow> Fin 10
          | Some m \<Rightarrow> parseInt (ToString (groups m 1)))
     \<and> starch (breakdown d) =
         (case exec True starchRegex text 0 of None \<Rightarrow> Fin 15
          | Some m \<Rightarrow> parseInt (ToString (groups m 1)))"
proof -
  define items where "items = map itemOfMatch (successiveMatches (Suc (length text)) text 0)"
  define d where "d = (if items = [] then fallbackTotals text
                       else (fallbackTotals text)\<lparr>foodItems := items\<rparr>)"
  have gen: "generateEstimatedCarbData text = Some (Inr d)"
    unfolding d_def items_def generate_eq Let_def by simp
  have nums: "totalCarbs d = totalCarbs (fallbackTotals text)"
    "breakdown d = breakdown (fallbackTotals text)"
    unfolding d_def by simp_all
  have total: "totalCarbs (fallbackTotals text) =
      num_add (num_add (fiber (breakdown (fallbackTotals text)))
                       (sugar (breakdown (fallbackTotals text))))
              (starch (breakdown (fallbackTotals text)))"
    by (subst fallbackTotals_total) (use assms in auto)
  show ?thesis
  proof (intro exI[of _ d] conjI)
    show "generateEstimatedCarbData text = Some (Inr d)" by (rule gen)
    show "totalCarbs d =
      num_add (num_add (fiber (breakdown d)) (sugar (breakdown d))) (starch (breakdown d))"
      unfolding nums by (rule total)
    show "fiber (breakdown d) =
      (case exec True fiberRegex text 0 of None \<Rightarrow> Fin 5
       | Some m \<Rightarrow> parseInt (ToString (groups m 1)))"
      unfolding nums by (rule fallbackTotals_breakdown)
    show "sugar (breakdown d) =
      (case exec True sugarRegex text 0 of None \<Rightarrow> Fin 10
       | Some m \<Rightarrow> parseInt (ToString (groups m 1)))"
      unfolding nums by (rule fallbackTotals_breakdown)
    show "starch (breakdown d) =
      (case exec True starchRegex text 0 of None \<Rightarrow> Fin 15
       | Some m \<Rightarrow> parseInt (ToString (groups m 1)))"
      unfolding nums by (rule fallbackTotals_breakdown)
  qed
qed

text \<open>
  Claim C2 as stated fails: the text "fiber: 5g sugar: 10g" has no total-carb phrase and
  the sugar pattern matches in it ("5g sugar"); the record has \<open>totalCarbs\<close> 25, fiber 5
  (the default), sugar 5 and starch 15 (the default), not 15, 5, 10 and 0.
\<close>

theorem fiber_sugar_counterexample:
  "exec True carbRegex (str ''fiber: 5g sugar: 10g'') 0 = None
   \<and> map_option index (exec True sugarRegex (str ''fiber: 5g sugar: 10g'') 0) = Some 7
   \<and> generateEstimatedCarbData (str ''fiber: 5g sugar: 10g'') =
       Some (Inr \<lparr>totalCarbs = Fin 25,
                  breakdown = \<lparr>fiber = Fin 5, sugar = Fin 5, starch = Fin 15\<rparr>,
                  foodItems = [\<lparr>name = str ''Unknown food item'', weight = Fin 100,
                                carbs = Fin 30, confidence = Some Low\<rparr>]\<rparr>)"
  by (simp add: fallback_eval num_eval rx_eval)

theorem total_is_sum_of_breakdown_witness:
  "exec True carbRegex (str ''5g fiber, 10g sugar'') 0 = None
   \<and> exec True fiberRegex (str ''5g fiber, 10g sugar'') 0 \<noteq> None
   \<and> (\<exists>d. generateEstimatedCarbData (str ''5g fiber, 10g sugar'') = Some (Inr d)
          \<and> totalCarbs d = Fin 30 \<and> fiber (breakdown d) = Fin 5
          \<and> sugar (breakdown d) = Fin 10 \<and> starch (breakdown d) = Fin 15)"
proof -
  have h1: "exec True carbRegex (str ''5g fiber, 10g sugar'') 0 = None"
    by (simp add: rx_eval)
  have h2: "exec True fiberRegex (str ''5g fiber, 10g sugar'') 0 \<noteq> None"
    by (simp add: rx_eval)
  have f: "(case exec True fiberRegex (str ''5g fiber, 10g sugar'') 0 of None \<Rightarrow> Fin 5
            | Some m \<Rightarrow> parseInt (ToString (groups m 1))) = Fin 5"
    by (simp add: fallback_eval num_eval rx_eval)
  have s: "(case exec True sugarRegex (str ''5g fiber, 10g sugar'') 0 of None \<Rightarrow> Fin 10
            | Some m \<Rightarrow> parseInt (ToString (groups m 1))) = Fin 10"
    by (simp add: fallback_eval num_eval rx_eval)
  have t: "(case exec True starchRegex (str ''5g fiber, 10g sugar'') 0 of None \<Rightarrow> Fin 15
            | Some m \<Rightarrow> parseInt (ToString (groups m 1))) = Fin 15"
    by (simp add: fallback_eval num_eval rx_eval)
  from total_is_sum_of_breakdown[OF h1 disjI1[OF h2]] obtain d where
    "generateEstimatedCarbData (str ''5g fiber, 10g sugar'') = Some (Inr d)"
    "totalCarbs d =
       num_add (num_add (fiber (breakdown d)) (sugar (breakdown d))) (starch (breakdown d))"
    "fiber (breakdown d) = Fin 5" "sugar (breakdown d) = Fin 10" "starch (breakdown d) = Fin 15"
    unfolding f s t by blast
  then show ?thesis using h1 h2 by auto
qed

text \<open>
  Claim C7. The items returned are those of the successive matches of the item pattern,
  each match searched from the end of the one before, so in the order of the text; each
  has confidence \<open>low\<close>. For "Chicken: 150g, 0g of carbs" then "Rice: 200g, 45g carbs"
  on the next line, they are Chicken, 150, 0 and Rice, 200, 45.
\<close>

theorem items_in_text_order:
  "(\<exists>d. generateEstimatedCarbData text = Some (Inr d)
        \<and> foodItems d =
            (if successiveMatches (Suc (length text)) text 0 = [] then [defaultItem]
             else map itemOfMatch (successiveMatches (Suc (length text)) text 0)))
   \<and> sorted_wrt (\<lambda>a b. lastIndex a \<le> index b) (successiveMatches (Suc (length text)) text 0)
   \<and> list_all (\<lambda>m. index m < lastIndex m) (successiveMatches (Suc (length text)) text 0)
   \<and> generateEstimatedCarbData
        (str ''Chicken: 150g, 0g of carbs'' @ [10] @ str ''Rice: 200g, 45g carbs'') =
      Some (Inr \<lparr>totalCarbs = Fin 0,
                 breakdown = \<lparr>fiber = Fin 5, sugar = Fin 10, starch = Fin 15\<rparr>,
                 foodItems = [\<lparr>name = str ''Chicken'', weight = Fin 150,
                               carbs = Fin 0, confidence = Some Low\<rparr>,
                              \<lparr>name = str ''Rice'', weight = Fin 200,
                               carbs = Fin 45, confidence = Some Low\<rparr>]\<rparr>)"
proof (intro conjI)
  show "\<exists>d. generateEstimatedCarbData text = Some (Inr d)
        \<and> foodItems d =
            (if successiveMatches (Suc (length text)) text 0 = [] then [defaultItem]
             else map itemOfMatch (successiveMatches (Suc (length text)) text 0))"
    unfolding generate_eq Let_def by (simp add: fallbackTotals_items)
  show "sorted_wrt (\<lambda>a b. lastIndex a \<le> index b) (successiveMatches (Suc (length text)) text 0)"
    by (rule successiveMatches_sorted)
  show "list_all (\<lambda>m. index m < lastIndex m) (successiveMatches (Suc (length text)) text 0)"
    unfolding list_all_iff using successiveMatches_exec foodItem_match(2) by blast
  show "generateEstimatedCarbData
        (str ''Chicken: 150g, 0g of carbs'' @ [10] @ str ''Rice: 200g, 45g carbs'') =
      Some (Inr \<lparr>totalCarbs = Fin 0,
                 breakdown = \<lparr>fiber = Fin 5, sugar = Fin 10, starch = Fin 15\<rparr>,
                 foodItems = [\<lparr>name = str ''Chicken'', weight = Fin 150,
                               carbs = Fin 0, confidence = Some Low\<rparr>,
                              \<lparr>name = str ''Rice'', weight = Fin 200,
                               carbs = Fin 45, confidence = Some Low\<rparr>]\<rparr>)"
    by (simp add: fallback_eval num_eval rx_eval)
qed

section \<open>The bound on nested calls of the JSON parser is never reached\<close>

lemma skipWs_length: "length (skipWs s) \<le> length s"
  unfolding skipWs_def by (rule length_dropWhile_le)

lemma skipWs_Cons_length: "skipWs s = c # cs \<Longrightarrow> length cs < length s"
  using skipWs_length[of s] by simp

lemma parseChars_step:
  assumes "parseChars (c # cs) acc = Some (t, r)"
  shows "r = cs \<or> (\<exists>ys acc'. length ys \<le> length cs \<and> parseChars ys acc' = Some (t, r))"
  using assms
  by (auto split: if_splits list.splits option.splits prod.splits intro: exI[of _ cs])

lemma parseChars_length: "parseChars cs acc = Some (t, r) \<Longrightarrow> length r < length cs"
proof (induction cs arbitrary: acc rule: length_induct)
  case (1 cs)
  show ?case
  proof (cases cs)
    case Nil
    with "1.prems" show ?thesis by simp
  next
    case (Cons c cs0)
    from parseChars_step[OF "1.prems"[unfolded Cons]] show ?thesis
    proof
      assume "r = cs0" with Cons show ?thesis by simp
    next
      assume "\<exists>ys acc'. length ys \<le> length cs0 \<and> parseChars ys acc' = Some (t, r)"
      then obtain ys acc' where ys: "length ys \<le> length cs0" "parseChars ys acc' = Some (t, r)"
        by blast
      with Cons have "length ys < length cs" by simp
      with "1.IH" ys(2) have "length r < length ys" by blast
      with ys(1) Cons show ?thesis by simp
    qed
  qed
qed

lemma digitRun_length:
  "digitRun s = (ds, r) \<Longrightarrow> length ds + length r = length s"
  unfolding digitRun_def by (metis Pair_inject length_append takeWhile_dropWhile_id)

lemma minusSign_length: "minusSign s = (b, r) \<Longrightarrow> length r \<le> length s"
  unfolding minusSign_def by (auto split: list.splits if_splits)

lemma fraction_length: "fraction s = Some (ds, r) \<Longrightarrow> length r \<le> length s"
  unfolding fraction_def
  by (auto split: list.splits if_splits prod.splits dest!: digitRun_length)

lemma exponent_length: "exponent s = Some (e, r) \<Longrightarrow> length r \<le> length s"
  unfolding exponent_def Let_def
  by (auto split: list.splits if_splits prod.splits dest!: digitRun_length)

lemma parseNumber_length:
  assumes "parseNumber s = Some (v, r)"
  shows "length r < length s"
proof -
  obtain negative s1 where 1: "minusSign s = (negative, s1)" by (cases "minusSign s")
  obtain intDigits s2 where 2: "digitRun s1 = (intDigits, s2)" by (cases "digitRun s1")
  from assms 1 2 have ne: "intDigits \<noteq> []"
    by (auto simp: parseNumber_def split: if_splits)
  from assms 1 2 ne obtain fracDigits s3 e where 3: "fraction s2 = Some (fracDigits, s3)"
    and 4: "exponent s3 = Some (e, r)"
    by (auto simp: parseNumber_def split: if_splits option.splits)
  from minusSign_length[OF 1] digitRun_length[OF 2] ne fraction_length[OF 3]
    exponent_length[OF 4]
  show ?thesis by (cases intDigits) simp_all
qed

lemma literal_length: "take k (c # cs) = t \<Longrightarrow> length t = k \<Longrightarrow> 0 < k \<Longrightarrow>
  length (drop k (c # cs)) < length (c # cs)"
  by simp

lemma parseValue_length_step:
  assumes el: "\<And>t acc v r. parseElements n t acc = Some (v, r) \<Longrightarrow> length r < length t"
    and me: "\<And>t acc v r. parseMembers n t acc = Some (v, r) \<Longrightarrow> length r < length t"
    and p: "parseValue (Suc n) s = Some (v, r)"
  shows "length r < length s"
proof (cases "skipWs s")
  case Nil
  with p show ?thesis by simp
next
  case (Cons c cs)
  note le = skipWs_Cons_length[OF Cons]
  consider (obj) "c = 123" | (arr) "c \<noteq> 123" "c = 91" | (strg) "c \<noteq> 123" "c \<noteq> 91" "c = 34"
    | (other) "c \<noteq> 123" "c \<noteq> 91" "c \<noteq> 34" by blast
  then show ?thesis
  proof cases
    case obj
    show ?thesis
    proof (cases "skipWs cs")
      case Nil
      with p Cons obj show ?thesis by simp
    next
      case inner: (Cons d r0)
      note le2 = skipWs_length[of cs, unfolded inner]
      show ?thesis
      proof (cases "d = 125")
        case True
        with p Cons obj inner have "r = r0" by simp
        with le le2 show ?thesis by simp
      next
        case False
        with p Cons obj inner have "parseMembers n (d # r0) [] = Some (v, r)" by simp
        from me[OF this] le le2 show ?thesis by simp
      qed
    qed
  next
    case arr
    show ?thesis
    proof (cases "skipWs cs")
      case Nil
      with p Cons arr show ?thesis by simp
    next
      case inner: (Cons d r0)
      note le2 = skipWs_length[of cs, unfolded inner]
      show ?thesis
      proof (cases "d = 93")
        case True
        with p Cons arr inner have "r = r0" by simp
        with le le2 show ?thesis by simp
      next
        case False
        with p Cons arr inner have "parseElements n (d # r0) [] = Some (v, r)" by simp
        from el[OF this] le le2 show ?thesis by simp
      qed
    qed
  next
    case strg
    with p Cons obtain t where "parseChars cs [] = Some (t, r)"
      by (auto split: option.splits)
    from parseChars_length[OF this] le show ?thesis by simp
  next
    case other
    have len: "length (c # cs) \<le> length s" using skipWs_length[of s] Cons by simp
    from p Cons other have
      "(take 4 (c # cs) = str ''true'' \<and> r = drop 4 (c # cs))
       \<or> (take 5 (c # cs) = str ''false'' \<and> r = drop 5 (c # cs))
       \<or> (take 4 (c # cs) = str ''null'' \<and> r = drop 4 (c # cs))
       \<or> parseNumber (c # cs) = Some (v, r)"
      by (auto split: if_splits)
    then show ?thesis
    proof (elim disjE conjE)
      assume "parseNumber (c # cs) = Some (v, r)"
      from parseNumber_length[OF this] len show ?thesis by simp
    qed (use len in \<open>simp_all\<close>)
  qed
qed

lemma parseElements_length_step:
  assumes va: "\<And>t v r. parseValue n t = Some (v, r) \<Longrightarrow> length r < length t"
    and el: "\<And>t acc v r. parseElements n t acc = Some (v, r) \<Longrightarrow> length r < length t"
    and p: "parseElements (Suc n) s acc = Some (v, r)"
  shows "length r < length s"
proof -
  from p obtain v1 r1 where 1: "parseValue n s = Some (v1, r1)"
    by (auto split: option.splits)
  from p 1 obtain c cs where 2: "skipWs r1 = c # cs"
    by (auto split: list.splits)
  from va[OF 1] skipWs_Cons_length[OF 2] have le: "length cs < length s" by simp
  from p 1 2 have "(c = 44 \<and> parseElements n cs (acc @ [v1]) = Some (v, r)) \<or> r = cs"
    by (auto split: if_splits)
  then show ?thesis
  proof
    assume "c = 44 \<and> parseElements n cs (acc @ [v1]) = Some (v, r)"
    then have "length r < length cs" using el by blast
    with le show ?thesis by simp
  next
    assume "r = cs" with le show ?thesis by simp
  qed
qed

lemma parseMembers_length_step:
  assumes va: "\<And>t v r. parseValue n t = Some (v, r) \<Longrightarrow> length r < length t"
    and me: "\<And>t acc v r. parseMembers n t acc = Some (v, r) \<Longrightarrow> length r < length t"
    and p: "parseMembers (Suc n) s acc = Some (v, r)"
  shows "length r < length s"
proof -
  from p obtain c cs where 1: "skipWs s = c # cs" and c: "c = 34"
    by (auto split: list.splits if_splits)
  from p 1 c obtain key r0 where 2: "parseChars cs [] = Some (key, r0)"
    by (auto split: option.splits)
  from p 1 c 2 obtain d r1 where 3: "skipWs r0 = d # r1" and d: "d = 58"
    by (auto split: list.splits if_splits)
  from p 1 c 2 3 d obtain v1 r2 where 4: "parseValue n r1 = Some (v1, r2)"
    by (auto split: option.splits)
  from p 1 c 2 3 d 4 obtain e r3 where 5: "skipWs r2 = e # r3"
    by (auto split: list.splits)
  from skipWs_Cons_length[OF 1] parseChars_length[OF 2] skipWs_Cons_length[OF 3] va[OF 4]
    skipWs_Cons_length[OF 5]
  have le: "length r3 < length s" by simp
  from p 1 c 2 3 d 4 5 have
    "(e = 44 \<and> parseMembers n r3 (AList.update key v1 acc) = Some (v, r)) \<or> r = r3"
    by (auto split: if_splits)
  then show ?thesis
  proof
    assume "e = 44 \<and> parseMembers n r3 (AList.update key v1 acc) = Some (v, r)"
    then have "length r < length r3" using me by blast
    with le show ?thesis by simp
  next
    assume "r = r3" with le show ?thesis by simp
  qed
qed

lemma parse_length_all:
  "(\<forall>s v r. parseValue n s = Some (v, r) \<longrightarrow> length r < length s)
   \<and> (\<forall>s acc v r. parseElements n s acc = Some (v, r) \<longrightarrow> length r < length s)
   \<and> (\<forall>s acc v r. parseMembers n s acc = Some (v, r) \<longrightarrow> length r < length s)"
proof (induction n)
  case 0
  show ?case by simp
next
  case (Suc n)
  from Suc.IH have
    va: "parseValue n t = Some (v, r) \<Longrightarrow> length r < length t"
    and el: "parseElements n t acc = Some (v, r) \<Longrightarrow> length r < length t"
    and me: "parseMembers n t macc = Some (v, r) \<Longrightarrow> length r < length t"
    for t acc macc v r
    by blast+
  show ?case
  proof (intro conjI allI impI)
    fix s v r assume p: "parseValue (Suc n) s = Some (v, r)"
    show "length r < length s" by (rule parseValue_length_step[OF el me p])
  next
    fix s acc v r assume p: "parseElements (Suc n) s acc = Some (v, r)"
    show "length r < length s" by (rule parseElements_length_step[OF va el p])
  next
    fix s acc v r assume p: "parseMembers (Suc n) s acc = Some (v, r)"
    show "length r < length s" by (rule parseMembers_length_step[OF va me p])
  qed
qed

lemma parseValue_length: "parseValue n s = Some (v, r) \<Longrightarrow> length r < length s"
  using parse_length_all[of n] by blast

lemma parseValue_fuel_step:
  assumes el: "\<And>t acc. 2 * length t + 2 \<le> n \<Longrightarrow> parseElements m t acc = parseElements n t acc"
    and me: "\<And>t acc. 2 * length t + 2 \<le> n \<Longrightarrow> parseMembers m t acc = parseMembers n t acc"
    and s: "2 * length s + 1 \<le> Suc n"
  shows "parseValue (Suc m) s = parseValue (Suc n) s"
proof (cases "skipWs s")
  case Nil
  then show ?thesis by simp
next
  case (Cons c cs)
  note le = skipWs_Cons_length[OF Cons]
  show ?thesis
  proof (cases "skipWs cs")
    case Nil
    with Cons show ?thesis by simp
  next
    case inner: (Cons d r0)
    from skipWs_length[of cs] inner le s have "2 * length (d # r0) + 2 \<le> n" by simp
    from el[OF this] me[OF this] Cons inner show ?thesis by auto
  qed
qed

lemma parseElements_fuel_step:
  assumes va: "\<And>t. 2 * length t + 1 \<le> n \<Longrightarrow> parseValue m t = parseValue n t"
    and el: "\<And>t acc. 2 * length t + 2 \<le> n \<Longrightarrow> parseElements m t acc = parseElements n t acc"
    and s: "2 * length s + 2 \<le> Suc n"
  shows "parseElements (Suc m) s acc = parseElements (Suc n) s acc"
proof -
  from s have "2 * length s + 1 \<le> n" by simp
  from va[OF this] have v: "parseValue m s = parseValue n s" .
  show ?thesis
  proof (cases "parseValue n s")
    case None
    with v show ?thesis by simp
  next
    case (Some p)
    obtain v1 r1 where p: "p = (v1, r1)" by (cases p)
    from parseValue_length[OF Some[unfolded p]] have l1: "length r1 < length s" .
    show ?thesis
    proof (cases "skipWs r1")
      case Nil
      with v Some p show ?thesis by simp
    next
      case (Cons c cs)
      from skipWs_Cons_length[OF Cons] l1 s have "2 * length cs + 2 \<le> n" by simp
      from el[OF this] v Some p Cons show ?thesis by simp
    qed
  qed
qed

lemma parseMembers_fuel_step:
  assumes va: "\<And>t. 2 * length t + 1 \<le> n \<Longrightarrow> parseValue m t = parseValue n t"
    and me: "\<And>t acc. 2 * length t + 2 \<le> n \<Longrightarrow> parseMembers m t acc = parseMembers n t acc"
    and s: "2 * length s + 2 \<le> Suc n"
  shows "parseMembers (Suc m) s acc = parseMembers (Suc n) s acc"
proof (cases "skipWs s")
  case Nil
  then show ?thesis by simp
next
  case 1: (Cons c cs)
  note l1 = skipWs_Cons_length[OF 1]
  show ?thesis
  proof (cases "parseChars cs []")
    case None
    with 1 show ?thesis by simp
  next
    case (Some p)
    obtain key r0 where p: "p = (key, r0)" by (cases p)
    note 2 = Some[unfolded p]
    note l2 = parseChars_length[OF 2]
    show ?thesis
    proof (cases "skipWs r0")
      case Nil
      with 1 2 show ?thesis by simp
    next
      case 3: (Cons d r1)
      note l3 = skipWs_Cons_length[OF 3]
      from l1 l2 l3 s have "2 * length r1 + 1 \<le> n" by simp
      from va[OF this] have v: "parseValue m r1 = parseValue n r1" .
      show ?thesis
      proof (cases "parseValue n r1")
        case None
        with 1 2 3 v show ?thesis by simp
      next
        case (Some q)
        obtain v1 r2 where q: "q = (v1, r2)" by (cases q)
        note 4 = Some[unfolded q]
        note l4 = parseValue_length[OF 4]
        show ?thesis
        proof (cases "skipWs r2")
          case Nil
          with 1 2 3 4 v show ?thesis by simp
        next
          case 5: (Cons e r3)
          from skipWs_Cons_length[OF 5] l1 l2 l3 l4 s have "2 * length r3 + 2 \<le> n" by simp
          from me[OF this] 1 2 3 4 5 v show ?thesis by simp
        qed
      qed
    qed
  qed
qed

lemma parse_fuel_all:
  "n \<le> m \<Longrightarrow>
   (\<forall>s. 2 * length s + 1 \<le> n \<longrightarrow> parseValue m s = parseValue n s)
   \<and> (\<forall>s acc. 2 * length s + 2 \<le> n \<longrightarrow> parseElements m s acc = parseElements n s acc)
   \<and> (\<forall>s acc. 2 * length s + 2 \<le> n \<longrightarrow> parseMembers m s acc = parseMembers n s acc)"
proof (induction n arbitrary: m)
  case 0
  show ?case by simp
next
  case (Suc n)
  from Suc.prems obtain m' where m: "m = Suc m'" and le: "n \<le> m'" by (cases m) simp_all
  from Suc.IH[OF le] have
    va: "2 * length t + 1 \<le> n \<Longrightarrow> parseValue m' t = parseValue n t"
    and el: "2 * length t + 2 \<le> n \<Longrightarrow> parseElements m' t acc = parseElements n t acc"
    and me: "2 * length t + 2 \<le> n \<Longrightarrow> parseMembers m' t macc = parseMembers n t macc"
    for t acc macc
    by blast+
  show ?case unfolding m
  proof (intro conjI allI impI)
    fix s :: jsstring assume s: "2 * length s + 1 \<le> Suc n"
    show "parseValue (Suc m') s = parseValue (Suc n) s"
      by (rule parseValue_fuel_step[OF el me s])
  next
    fix s :: jsstring and acc assume s: "2 * length s + 2 \<le> Suc n"
    show "parseElements (Suc m') s acc = parseElements (Suc n) s acc"
      by (rule parseElements_fuel_step[OF va el s])
  next
    fix s :: jsstring and acc assume s: "2 * length s + 2 \<le> Suc n"
    show "parseMembers (Suc m') s acc = parseMembers (Suc n) s acc"
      by (rule parseMembers_fuel_step[OF va me s])
  qed
qed

text \<open>More nested calls than \<open>JSON_parse\<close> allows change nothing.\<close>

lemma JSON_parse_fuel:
  "2 * length text + 2 \<le> m \<Longrightarrow> parseValue m text = parseValue (2 * length text + 2) text"
  using parse_fuel_all[of "2 * length text + 2" m] by simp

section \<open>The response normalizer\<close>

subsection \<open>Evaluating \<open>JSON.parse\<close> on a given text\<close>

lemmas parseValue_numeral =
  parseValue.simps(2)[of "pred_numeral k" for k, unfolded numeral_eq_Suc[symmetric]]
lemmas parseElements_numeral =
  parseElements.simps(2)[of "pred_numeral k" for k, unfolded numeral_eq_Suc[symmetric]]
lemmas parseMembers_numeral =
  parseMembers.simps(2)[of "pred_numeral k" for k, unfolded numeral_eq_Suc[symmetric]]

lemmas json_eval = JSON_parse_def parseValue_numeral parseElements_numeral parseMembers_numeral
  skipWs_def isJsonWs_def parseNumber_def digitRun_def minusSign_def fraction_def exponent_def
  numberValue_def


subsection \<open>The normalizer takes one of its three paths and stores a record\<close>


lemma useEstimate_eq:
  "useEstimate content st =
     Some (Inr (st\<lparr>carbData := fallbackRecord content, error := Some degradedMessage\<rparr>))"
  unfolding useEstimate_def fallbackRecord_def generate_eq by simp

lemma normalizeResponse_eq:
  "normalizeResponse content st =
     Some (Inr (case pathTaken content of
                  DirectParse \<Rightarrow> st\<lparr>carbData := directRecord content\<rparr>
                | EmbeddedParse \<Rightarrow> st\<lparr>carbData := embeddedRecord content\<rparr>
                | HeuristicFallback \<Rightarrow>
                    st\<lparr>carbData := fallbackRecord content, error := Some degradedMessage\<rparr>))"
  unfolding normalizeResponse_def pathTaken_def directRecord_def embeddedRecord_def
    useEstimate_eq
  by (simp split: sum.splits option.splits)


lemma analyzeImage_eq:
  "analyzeImage imageSrc (Content content) st =
     Some (st\<lparr>isLoading := False,
              rawResponse := Some content,
              requests := requests st @ [apiKey st],
              carbData := (case pathTaken content of
                             DirectParse \<Rightarrow> directRecord content
                           | EmbeddedParse \<Rightarrow> embeddedRecord content
                           | HeuristicFallback \<Rightarrow> fallbackRecord content),
              error := (if pathTaken content = HeuristicFallback then Some degradedMessage
                        else None)\<rparr>)"
  unfolding analyzeImage_def Let_def normalizeResponse_eq
  by (cases "pathTaken content") simp_all



lemmas path_eval = pathTaken_def directRecord_def embeddedRecord_def parseCarbData_def
  withFoodItems_def jsonRegex_def


subsection \<open>The direct parse of a value of the schema\<close>

lemma update_new_key: "map_of ps k = None \<Longrightarrow> AList.update k v ps = ps @ [(k, v)]"
  by (induction ps) (auto split: if_splits)

lemma ensureFoodItems_schema:
  assumes "matchesSchema v"
  shows "ensureFoodItems v =
           Inr (if field v ''foodItems'' = None then withEmptyFoodItems v else v)"
proof -
  from assms obtain ps where v: "v = JObj ps" by (cases v) (auto simp: matchesSchema_def)
  show ?thesis
  proof (cases "map_of ps (str ''foodItems'')")
    case None
    then show ?thesis
      unfolding v by (simp add: withFoodItems_def field_def withEmptyFoodItems_def update_new_key)
  next
    case (Some x)
    with assms v obtain items extra where "x = JArr items extra"
      by (cases x) (auto simp: matchesSchema_def field_def)
    with Some show ?thesis unfolding v by (simp add: withFoodItems_def field_def)
  qed
qed

text \<open>
  Claim C4. When the whole text is well-formed JSON for a value of the schema, the
  direct parse stores the parsed value itself, with an empty \<open>foodItems\<close> added when it
  has none, and sets no warning.
\<close>

theorem direct_parse_round_trip:
  assumes "JSON_parse content = Inr v" and "matchesSchema v"
  shows "\<exists>st'. analyzeImage imageSrc (Content content) st = Some st'
           \<and> pathTaken content = DirectParse
           \<and> carbData st' = Some (if field v ''foodItems'' = None then withEmptyFoodItems v else v)
           \<and> error st' = None"
proof -
  have "directRecord content =
          Some (if field v ''foodItems'' = None then withEmptyFoodItems v else v)"
    unfolding directRecord_def parseCarbData_def using assms ensureFoodItems_schema by simp
  moreover from this have "pathTaken content = DirectParse" by (simp add: pathTaken_def)
  ultimately show ?thesis unfolding analyzeImage_eq by simp
qed


lemmas schema_eval = matchesSchema_def schemaFoodItem_def field_def withEmptyFoodItems_def

theorem direct_parse_round_trip_witness:
  "JSON_parse (str ''{\"totalCarbs\": 45, \"breakdown\": {\"fiber\": 3, \"sugar\": 2, \"starch\": 40}}'')
     = Inr (JObj [(str ''totalCarbs'', JNum (Fin 45)),
                  (str ''breakdown'',
                   JObj [(str ''fiber'', JNum (Fin 3)), (str ''sugar'', JNum (Fin 2)),
                         (str ''starch'', JNum (Fin 40))])])
   \<and> matchesSchema
        (JObj [(str ''totalCarbs'', JNum (Fin 45)),
               (str ''breakdown'',
                JObj [(str ''fiber'', JNum (Fin 3)), (str ''sugar'', JNum (Fin 2)),
                      (str ''starch'', JNum (Fin 40))])])
   \<and> (\<exists>st'. analyzeImage []
          (Content (str ''{\"totalCarbs\": 45, \"breakdown\": {\"fiber\": 3, \"sugar\": 2, \"starch\": 40}}''))
          (initialState None) = Some st'
        \<and> carbData st' =
            Some (JObj [(str ''totalCarbs'', JNum (Fin 45)),
                        (str ''breakdown'',
                         JObj [(str ''fiber'', JNum (Fin 3)), (str ''sugar'', JNum (Fin 2)),
                               (str ''starch'', JNum (Fin 40))]),
                        (str ''foodItems'', JArr [] [])])
        \<and> error st' = None)"
proof -
  let ?t = "str ''{\"totalCarbs\": 45, \"breakdown\": {\"fiber\": 3, \"sugar\": 2, \"starch\": 40}}''"
  let ?v = "JObj [(str ''totalCarbs'', JNum (Fin 45)),
                  (str ''breakdown'',
                   JObj [(str ''fiber'', JNum (Fin 3)), (str ''sugar'', JNum (Fin 2)),
                         (str ''starch'', JNum (Fin 40))])]"
  have h1: "JSON_parse ?t = Inr ?v" by (simp add: json_eval num_eval rx_eval)
  have h2: "matchesSchema ?v" by (simp add: schema_eval str_def)
  have v: "(if field ?v ''foodItems'' = None then withEmptyFoodItems ?v else ?v) =
           JObj [(str ''totalCarbs'', JNum (Fin 45)),
                 (str ''breakdown'',
                  JObj [(str ''fiber'', JNum (Fin 3)), (str ''sugar'', JNum (Fin 2)),
                        (str ''starch'', JNum (Fin 40))]),
                 (str ''foodItems'', JArr [] [])]"
    by (simp add: schema_eval str_def)
  from direct_parse_round_trip[OF h1 h2, of "[]" "initialState None"] h1 h2
  show ?thesis unfolding v by blast
qed

subsection \<open>The embedded-object pattern matches from the first \<open>{\<close> to the last \<open>}\<close>\<close>

lemma greedyStar_skip:
  assumes "\<And>n. 0 < n \<Longrightarrow> n \<le> length t \<Longrightarrow> k (drop n t) c = None"
  shows "greedyStar p k t c = k t c"
  using assms
proof (induction t)
  case Nil
  show ?case by simp
next
  case (Cons x xs)
  have "\<And>n. 0 < n \<Longrightarrow> n \<le> length xs \<Longrightarrow> k (drop n xs) c = None"
    using Cons.prems[of "Suc n" for n] by simp
  from Cons.IH[OF this] have "greedyStar p k xs c = k xs c" .
  moreover from Cons.prems[of 1] have "k xs c = None" by simp
  ultimately show ?case by simp
qed

lemma greedyStar_longest:
  assumes "\<And>x. p x" and "k t c = Some r"
    and "\<And>n. 0 < n \<Longrightarrow> n \<le> length t \<Longrightarrow> k (drop n t) c = None"
  shows "greedyStar p k (mid @ t) c = Some r"
proof (induction mid)
  case Nil
  show ?case
    using greedyStar_skip[where k = k and t = t and c = c and p = p, OF assms(3)] assms(2)
    by simp
next
  case (Cons x mid)
  then show ?case by (simp add: assms(1))
qed

lemma no_close_in_drop: "125 \<notin> set post \<Longrightarrow> drop n post = x # xs \<Longrightarrow> x \<noteq> 125"
  by (metis in_set_dropD list.set_intros(1))

lemma jsonRegex_matchAt:
  assumes "125 \<notin> set post"
  shows "matchAt False jsonRegex i (123 # mid @ 125 # post) =
           Some \<lparr>index = i, lastIndex = i + (length mid + 2),
                 groups = Map.empty(0 \<mapsto> 123 # mid @ [125])\<rparr>"
proof -
  define k :: "regmatch cont" where
    "k = matcher (Seq (Atom (Chr 125)) Empty) False
           (\<lambda>s' c. Some \<lparr>index = i,
                         lastIndex = i + (length (123 # mid @ 125 # post) - length s'),
                         groups = c(0 \<mapsto> take (length (123 # mid @ 125 # post) - length s')
                                            (123 # mid @ 125 # post))\<rparr>)"
  have 1: "k (125 # post) Map.empty =
             Some \<lparr>index = i, lastIndex = i + (length mid + 2),
                   groups = Map.empty(0 \<mapsto> 123 # mid @ [125])\<rparr>"
    unfolding k_def by (simp add: canonicalize_def)
  have 2: "k (drop n (125 # post)) Map.empty = None" if "0 < n" "n \<le> length (125 # post)" for n
  proof (cases "drop n (125 # post)")
    case Nil
    then show ?thesis unfolding k_def by simp
  next
    case (Cons x xs)
    with that have "drop (n - 1) post = x # xs" by (cases n) simp_all
    from no_close_in_drop[OF assms this] Cons show ?thesis
      unfolding k_def by (simp add: canonicalize_def)
  qed
  have "greedyStar (classMatches False (Union WhiteSpace NonWhiteSpace)) k
          (mid @ 125 # post) Map.empty =
        Some \<lparr>index = i, lastIndex = i + (length mid + 2),
              groups = Map.empty(0 \<mapsto> 123 # mid @ [125])\<rparr>"
  proof (rule greedyStar_longest[where k = k and t = "125 # post" and c = Map.empty])
    show "classMatches False (Union WhiteSpace NonWhiteSpace) x" for x by simp
    show "k (125 # post) Map.empty =
            Some \<lparr>index = i, lastIndex = i + (length mid + 2),
                  groups = Map.empty(0 \<mapsto> 123 # mid @ [125])\<rparr>" by (rule 1)
    show "k (drop n (125 # post)) Map.empty = None" if "0 < n" "n \<le> length (125 # post)" for n
      using that by (rule 2)
  qed
  then show ?thesis
    unfolding matchAt_def jsonRegex_def seq_def k_def
    by (simp add: canonicalize_def del: fun_upd_apply)
qed

lemma jsonRegex_matchAt_other: "x \<noteq> 123 \<Longrightarrow> matchAt False jsonRegex i (x # xs) = None"
  unfolding matchAt_def jsonRegex_def seq_def by (simp add: canonicalize_def)

lemma jsonRegex_scan:
  assumes "123 \<notin> set pre" and "125 \<notin> set post"
  shows "scan False jsonRegex i (pre @ 123 # mid @ 125 # post) =
           Some \<lparr>index = i + length pre, lastIndex = i + length pre + (length mid + 2),
                 groups = Map.empty(0 \<mapsto> 123 # mid @ [125])\<rparr>"
  using assms(1)
proof (induction pre arbitrary: i)
  case Nil
  show ?case using jsonRegex_matchAt[OF assms(2), of i mid] by (simp del: fun_upd_apply)
next
  case (Cons x pre)
  then have "x \<noteq> 123" "123 \<notin> set pre" by auto
  with Cons.IH[of "Suc i"] jsonRegex_matchAt_other[of x] show ?case
    by (simp del: fun_upd_apply)
qed

lemma greedySpan_decomposed:
  assumes "123 \<notin> set pre" and "125 \<notin> set post"
  shows "greedySpan (pre @ 123 # mid @ 125 # post) = 123 # mid @ [125]"
proof -
  have "dropWhile (\<lambda>c. c \<noteq> 123) (pre @ 123 # mid @ 125 # post) = 123 # mid @ 125 # post"
    using assms(1) by (induction pre) auto
  moreover have "dropWhile (\<lambda>c. c \<noteq> 125) (rev post @ 125 # rev mid @ [123])
      = 125 # rev mid @ [123]"
    using assms(2) by (induction post rule: rev_induct) auto
  ultimately show ?thesis by (simp add: greedySpan_def)
qed

lemma braces_decompose:
  assumes "i < j" and "j < length content" and "content ! i = 123" and "content ! j = 125"
  shows "\<exists>pre mid post. content = pre @ 123 # mid @ 125 # post
           \<and> 123 \<notin> set pre \<and> 125 \<notin> set post"
proof -
  from assms have "123 \<in> set content" by (metis less_trans nth_mem)
  from split_list_first[OF this] obtain pre rest where
    c: "content = pre @ 123 # rest" and pre: "123 \<notin> set pre" by blast
  have "length pre \<le> i"
  proof (rule ccontr)
    assume "\<not> length pre \<le> i"
    then have "i < length pre" by simp
    with c have "content ! i = pre ! i" by (simp add: nth_append)
    with \<open>i < length pre\<close> assms(3) pre show False by (metis nth_mem)
  qed
  with assms(1) have jl: "length pre < j" by simp
  with c assms(2,4) have "rest ! (j - length pre - 1) = 125" "j - length pre - 1 < length rest"
    by (auto simp: nth_append nth_Cons')
  then have "125 \<in> set rest" by (metis nth_mem)
  from split_list_last[OF this] obtain mid post where
    "rest = mid @ 125 # post" "125 \<notin> set post" by blast
  with c pre show ?thesis by blast
qed

lemma jsonRegex_exec:
  assumes "i < j" and "j < length content" and "content ! i = 123" and "content ! j = 125"
  shows "\<exists>m. exec False jsonRegex content 0 = Some m \<and> groups m 0 = Some (greedySpan content)"
proof -
  from braces_decompose[OF assms] obtain pre mid post where
    c: "content = pre @ 123 # mid @ 125 # post" and p: "123 \<notin> set pre" "125 \<notin> set post"
    by blast
  have "exec False jsonRegex content 0 =
          Some \<lparr>index = 0 + length pre, lastIndex = 0 + length pre + (length mid + 2),
                groups = Map.empty(0 \<mapsto> 123 # mid @ [125])\<rparr>"
    unfolding c exec_def using jsonRegex_scan[OF p, of 0 mid] by simp
  moreover have "greedySpan content = 123 # mid @ [125]"
    unfolding c by (rule greedySpan_decomposed[OF p])
  ultimately show ?thesis by simp
qed


text \<open>
  Claim C5. When the whole text is not well-formed JSON and has a \<open>{\<close> with a \<open>}\<close>
  after it, the pattern matches exactly from the first \<open>{\<close> to the last \<open>}\<close>, and the
  second attempt parses that part and nothing else; when that part is a well-formed JSON
  object, the record stored is the one parsing that part alone gives, with the same
  \<open>foodItems\<close> added when missing, and no warning is set.
\<close>

theorem embedded_object_parse:
  assumes "JSON_parse content = Inl e"
    and "i < j" and "j < length content" and "content ! i = 123" and "content ! j = 125"
  shows "(\<exists>m. exec False jsonRegex content 0 = Some m \<and> groups m 0 = Some (greedySpan content))
       \<and> embeddedRecord content = directRecord (greedySpan content)
       \<and> (JSON_parse (greedySpan content) = Inr (JObj ps) \<longrightarrow>
            (\<exists>st'. analyzeImage imageSrc (Content content) st = Some st'
                \<and> pathTaken content = EmbeddedParse
                \<and> carbData st' = directRecord (greedySpan content)
                \<and> carbData st' = Some (JObj (withFoodItems ps))
                \<and> error st' = None))"
proof -
  from jsonRegex_exec[OF assms(2-5)] obtain m where
    m: "exec False jsonRegex content 0 = Some m" "groups m 0 = Some (greedySpan content)"
    by blast
  have emb: "embeddedRecord content = directRecord (greedySpan content)"
    unfolding embeddedRecord_def using m by (simp add: ToString_def)
  have dir: "directRecord content = None"
    unfolding directRecord_def parseCarbData_def using assms(1) by simp
  have obj: "\<exists>st'. analyzeImage imageSrc (Content content) st = Some st'
                \<and> pathTaken content = EmbeddedParse
                \<and> carbData st' = directRecord (greedySpan content)
                \<and> carbData st' = Some (JObj (withFoodItems ps))
                \<and> error st' = None"
    if "JSON_parse (greedySpan content) = Inr (JObj ps)"
  proof -
    from that have "directRecord (greedySpan content) = Some (JObj (withFoodItems ps))"
      unfolding directRecord_def parseCarbData_def by simp
    moreover from this dir emb have "pathTaken content = EmbeddedParse"
      by (simp add: pathTaken_def)
    ultimately show ?thesis unfolding analyzeImage_eq using emb by simp
  qed
  from m emb obj show ?thesis by blast
qed

theorem embedded_object_parse_witness:
  "JSON_parse (str ''Here you go: {\"totalCarbs\": 45} Thanks!'') = Inl SyntaxError
   \<and> (13::nat) < 30 \<and> 30 < length (str ''Here you go: {\"totalCarbs\": 45} Thanks!'')
   \<and> str ''Here you go: {\"totalCarbs\": 45} Thanks!'' ! 13 = 123
   \<and> str ''Here you go: {\"totalCarbs\": 45} Thanks!'' ! 30 = 125
   \<and> greedySpan (str ''Here you go: {\"totalCarbs\": 45} Thanks!'') = str ''{\"totalCarbs\": 45}''
   \<and> JSON_parse (str ''{\"totalCarbs\": 45}'') = Inr (JObj [(str ''totalCarbs'', JNum (Fin 45))])
   \<and> (\<exists>st'. analyzeImage [] (Content (str ''Here you go: {\"totalCarbs\": 45} Thanks!''))
               (initialState None) = Some st'
          \<and> carbData st' =
              Some (JObj [(str ''totalCarbs'', JNum (Fin 45)), (str ''foodItems'', JArr [] [])])
          \<and> error st' = None)"
proof -
  let ?t = "str ''Here you go: {\"totalCarbs\": 45} Thanks!''"
  have h1: "JSON_parse ?t = Inl SyntaxError" by (simp add: json_eval num_eval rx_eval)
  have h2: "(13::nat) < 30" by simp
  have h3: "30 < length ?t" by (simp add: str_def)
  have h4: "?t ! 13 = 123" by (simp add: str_def)
  have h5: "?t ! 30 = 125" by (simp add: str_def)
  have g: "greedySpan ?t = str ''{\"totalCarbs\": 45}''" by (simp add: greedySpan_def str_def)
  have h6: "JSON_parse (str ''{\"totalCarbs\": 45}'') = Inr (JObj [(str ''totalCarbs'', JNum (Fin 45))])"
    by (simp add: json_eval num_eval rx_eval)
  have w: "withFoodItems [(str ''totalCarbs'', JNum (Fin 45))] =
           [(str ''totalCarbs'', JNum (Fin 45)), (str ''foodItems'', JArr [] [])]"
    by (simp add: withFoodItems_def str_def)
  have h6': "JSON_parse (greedySpan ?t) = Inr (JObj [(str ''totalCarbs'', JNum (Fin 45))])"
    unfolding g by (rule h6)
  from embedded_object_parse[OF h1 h2 h3 h4 h5,
      of "[(str ''totalCarbs'', JNum (Fin 45))]" "[]" "initialState None"] h6'
  have "\<exists>st'. analyzeImage [] (Content ?t) (initialState None) = Some st'
          \<and> carbData st' = Some (JObj (withFoodItems [(str ''totalCarbs'', JNum (Fin 45))]))
          \<and> error st' = None"
    by blast
  then have r: "\<exists>st'. analyzeImage [] (Content ?t) (initialState None) = Some st'
          \<and> carbData st' =
              Some (JObj [(str ''totalCarbs'', JNum (Fin 45)), (str ''foodItems'', JArr [] [])])
          \<and> error st' = None"
    unfolding w .
  from h1 h2 h3 h4 h5 g h6 r show ?thesis by blast
qed

subsection \<open>The record of the fallback and the invariants of the data model\<close>

lemma numberWhere_nonneg: "isNonNegInteger x \<Longrightarrow> numberWhere isNonNegative (Some (JNum x))"
  by (cases x) (simp_all add: isNonNegative_def)

lemma validFoodItem_js:
  assumes "name item \<noteq> []" and "isNonNegInteger (weight item)" and "isNonNegInteger (carbs item)"
  shows "validFoodItem isNonNegative (js_of_FoodItem item)"
  unfolding validFoodItem_def js_of_FoodItem_def field_def
  using assms numberWhere_nonneg by (simp add: str_def del: isNonNegInteger.simps)

lemma validRecord_js:
  assumes "list_all lowConfidenceItem (foodItems d)"
    and "list_all (\<lambda>item. name item \<noteq> []) (foodItems d)"
    and "isNonNegInteger (totalCarbs d)" and "isNonNegInteger (fiber (breakdown d))"
    and "isNonNegInteger (sugar (breakdown d))" and "isNonNegInteger (starch (breakdown d))"
  shows "validRecord isNonNegative (js_of_CarbData d)"
proof -
  have "list_all (validFoodItem isNonNegative) (map js_of_FoodItem (foodItems d))"
    using assms(1,2) validFoodItem_js
    by (auto simp: list_all_iff lowConfidenceItem_def simp del: isNonNegInteger.simps)
  with assms(3-6) numberWhere_nonneg show ?thesis
    unfolding validRecord_def js_of_CarbData_def field_def
    by (simp add: str_def del: isNonNegInteger.simps)
qed

text \<open>
  Claim C6, amended. Every record the heuristic fallback stores satisfies the invariants
  with a weight that is not negative in place of a positive one: \<open>totalCarbs\<close>,
  \<open>fiber\<close>, \<open>sugar\<close>, \<open>starch\<close> and the carbs and weight of every item are numbers
  that are not negative, and the name of every item is not empty. The two parse paths
  store the parsed value as it is.
\<close>

theorem fallback_record_valid:
  assumes "pathTaken content = HeuristicFallback"
  shows "\<exists>st' v. analyzeImage imageSrc (Content content) st = Some st'
           \<and> carbData st' = Some v \<and> validRecord isNonNegative v"
proof -
  from generated_record_shape[of content] obtain d where
    d: "generateEstimatedCarbData content = Some (Inr d)"
    and shape: "list_all lowConfidenceItem (foodItems d)"
      "list_all (\<lambda>item. name item \<noteq> []) (foodItems d)"
      "isNonNegInteger (totalCarbs d)" "isNonNegInteger (fiber (breakdown d))"
      "isNonNegInteger (sugar (breakdown d))" "isNonNegInteger (starch (breakdown d))"
    by blast
  from d have "fallbackRecord content = Some (js_of_CarbData d)"
    by (simp add: fallbackRecord_def)
  with validRecord_js[OF shape] assms show ?thesis unfolding analyzeImage_eq by simp
qed


lemmas record_eval = analyzeImage_eq fallbackRecord_def js_of_CarbData_def js_of_FoodItem_def
  confidenceText_def initialState_def

lemmas valid_eval = validRecord_def validFoodItem_def field_def isPositive_def
  isNonNegative_def

theorem fallback_record_valid_witness:
  "pathTaken (str ''42g of carbs'') = HeuristicFallback
   \<and> (\<exists>st' v. analyzeImage [] (Content (str ''42g of carbs'')) (initialState None) = Some st'
          \<and> carbData st' = Some v \<and> validRecord isNonNegative v)"
proof -
  have h: "pathTaken (str ''42g of carbs'') = HeuristicFallback"
    by (simp add: path_eval json_eval num_eval rx_eval)
  from fallback_record_valid[OF h, of "[]" "initialState None"] h show ?thesis by blast
qed

text \<open>
  Claim C6 as stated fails on a parse path and on the fallback. The text
  \<open>{"totalCarbs": -5, "breakdown": {"fiber": 1, "sugar": 2, "starch": 3}, "foodItems": []}\<close>
  is stored as parsed, with \<open>totalCarbs\<close> -5; and for "Water: 0g, 0g carbs" the fallback
  stores an item of weight 0.
\<close>

theorem stored_record_invalid_counterexample:
  "map_option carbData
     (analyzeImage []
        (Content (str ''{\"totalCarbs\": -5, \"breakdown\": {\"fiber\": 1, \"sugar\": 2, \"starch\": 3}, \"foodItems\": []}''))
        (initialState None))
     = Some (Some (JObj [(str ''totalCarbs'', JNum (Fin (- 5))),
                         (str ''breakdown'',
                          JObj [(str ''fiber'', JNum (Fin 1)), (str ''sugar'', JNum (Fin 2)),
                                (str ''starch'', JNum (Fin 3))]),
                         (str ''foodItems'', JArr [] [])]))
   \<and> \<not> validRecord isPositive
         (JObj [(str ''totalCarbs'', JNum (Fin (- 5))),
                (str ''breakdown'',
                 JObj [(str ''fiber'', JNum (Fin 1)), (str ''sugar'', JNum (Fin 2)),
                       (str ''starch'', JNum (Fin 3))]),
                (str ''foodItems'', JArr [] [])])
   \<and> map_option carbData
       (analyzeImage [] (Content (str ''Water: 0g, 0g carbs'')) (initialState None))
     = Some (Some (JObj [(str ''totalCarbs'', JNum (Fin 0)),
                         (str ''breakdown'',
                          JObj [(str ''fiber'', JNum (Fin 5)), (str ''sugar'', JNum (Fin 10)),
                                (str ''starch'', JNum (Fin 15))]),
                         (str ''foodItems'',
                          JArr [JObj [(str ''name'', JStr (str ''Water'')),
                                      (str ''weight'', JNum (Fin 0)),
                                      (str ''carbs'', JNum (Fin 0)),
                                      (str ''confidence'', JStr (str ''low''))]] [])]))
   \<and> \<not> validRecord isPositive
         (JObj [(str ''totalCarbs'', JNum (Fin 0)),
                (str ''breakdown'',
                 JObj [(str ''fiber'', JNum (Fin 5)), (str ''sugar'', JNum (Fin 10)),
                       (str ''starch'', JNum (Fin 15))]),
                (str ''foodItems'',
                 JArr [JObj [(str ''name'', JStr (str ''Water'')),
                             (str ''weight'', JNum (Fin 0)),
                             (str ''carbs'', JNum (Fin 0)),
                             (str ''confidence'', JStr (str ''low''))]] [])])"
proof (intro conjI)
  show "map_option carbData
     (analyzeImage []
        (Content (str ''{\"totalCarbs\": -5, \"breakdown\": {\"fiber\": 1, \"sugar\": 2, \"starch\": 3}, \"foodItems\": []}''))
        (initialState None))
     = Some (Some (JObj [(str ''totalCarbs'', JNum (Fin (- 5))),
                         (str ''breakdown'',
                          JObj [(str ''fiber'', JNum (Fin 1)), (str ''sugar'', JNum (Fin 2)),
                                (str ''starch'', JNum (Fin 3))]),
                         (str ''foodItems'', JArr [] [])]))"
    by (simp add: record_eval path_eval json_eval num_eval rx_eval)
  show "\<not> validRecord isPositive
         (JObj [(str ''totalCarbs'', JNum (Fin (- 5))),
                (str ''breakdown'',
                 JObj [(str ''fiber'', JNum (Fin 1)), (str ''sugar'', JNum (Fin 2)),
                       (str ''starch'', JNum (Fin 3))]),
                (str ''foodItems'', JArr [] [])])"
    by (simp add: valid_eval str_def)
  show "map_option carbData
       (analyzeImage [] (Content (str ''Water: 0g, 0g carbs'')) (initialState None))
     = Some (Some (JObj [(str ''totalCarbs'', JNum (Fin 0)),
                         (str ''breakdown'',
                          JObj [(str ''fiber'', JNum (Fin 5)), (str ''sugar'', JNum (Fin 10)),
                                (str ''starch'', JNum (Fin 15))]),
                         (str ''foodItems'',
                          JArr [JObj [(str ''name'', JStr (str ''Water'')),
                                      (str ''weight'', JNum (Fin 0)),
                                      (str ''carbs'', JNum (Fin 0)),
                                      (str ''confidence'', JStr (str ''low''))]] [])]))"
    by (simp add: record_eval path_eval json_eval fallback_eval num_eval rx_eval)
  show "\<not> validRecord isPositive
         (JObj [(str ''totalCarbs'', JNum (Fin 0)),
                (str ''breakdown'',
                 JObj [(str ''fiber'', JNum (Fin 5)), (str ''sugar'', JNum (Fin 10)),
                       (str ''starch'', JNum (Fin 15))]),
                (str ''foodItems'',
                 JArr [JObj [(str ''name'', JStr (str ''Water'')),
                             (str ''weight'', JNum (Fin 0)),
                             (str ''carbs'', JNum (Fin 0)),
                             (str ''confidence'', JStr (str ''low''))]] [])])"
    by (simp add: valid_eval str_def)
qed

section \<open>Image normalization\<close>






section \<open>The credential guard\<close>









end
